theory Spec2Isabelle
  imports Main "HOL-Library.AList"
begin

section \<open>Data model\<close>

text \<open>
  The solver of \<^verbatim>\<open>CFLR.cpp\<close> works on three kinds of data that are declared in the
  header \<^verbatim>\<open>A4Header.h\<close>: the edge labels, the labelled graph with its two adjacency
  indices, and the work list. The header is not part of the sources, so these are
  modelled from the specification; the solver itself (\<^verbatim>\<open>CFLR::solve\<close> and its
  \<^verbatim>\<open>addEdge\<close> lambda) is translated from the code.
\<close>

text \<open>Modelled from the spec: the enumeration \<^verbatim>\<open>EdgeLabel\<close> (section 3, table of labels).\<close>

datatype EdgeLabel = Addr | AddrBar | Copy | CopyBar | Store | Load | PT | PTBar | PV | VP

text \<open>The triple built by \<^verbatim>\<open>CFLREdge(u, v, label)\<close> and read through \<^verbatim>\<open>src\<close>,
  \<^verbatim>\<open>dst\<close> and \<^verbatim>\<open>label\<close>. Nodes are non-negative integer identifiers.\<close>

datatype CFLREdge = CFLREdge (src: nat) (dst: nat) (label: EdgeLabel)

text \<open>
  Modelled from the spec: the adjacency index, a map from a node to a map from a label to
  a set of nodes. The solver enumerates these maps and sets, so they are association lists
  and lists here: the order of a list is one possible enumeration order of the container.
\<close>

type_synonym LabelMap = "(EdgeLabel \<times> nat list) list"
type_synonym DataMap = "(nat \<times> LabelMap) list"

record CFLRGraph =
  succMap :: DataMap
  predMap :: DataMap

definition lookup2 :: "DataMap \<Rightarrow> nat \<Rightarrow> EdgeLabel \<Rightarrow> nat list" where
  "lookup2 m u l =
     (case map_of m u of
        None \<Rightarrow> []
      | Some lm \<Rightarrow> (case map_of lm l of None \<Rightarrow> [] | Some vs \<Rightarrow> vs))"

definition insert2 :: "DataMap \<Rightarrow> nat \<Rightarrow> EdgeLabel \<Rightarrow> nat \<Rightarrow> DataMap" where
  "insert2 m u l v =
     (let lm = (case map_of m u of None \<Rightarrow> [] | Some x \<Rightarrow> x);
          vs = (case map_of lm l of None \<Rightarrow> [] | Some x \<Rightarrow> x)
      in AList.update u (AList.update l (if v \<in> set vs then vs else vs @ [v]) lm) m)"

text \<open>Modelled from the spec: \<^verbatim>\<open>hasEdge(u, v, l)\<close>, the membership test (section 4.1).\<close>

definition hasEdge :: "CFLRGraph \<Rightarrow> nat \<Rightarrow> nat \<Rightarrow> EdgeLabel \<Rightarrow> bool" where
  "hasEdge g u v l = (v \<in> set (lookup2 (succMap g) u l))"

text \<open>Modelled from the spec: the graph's own \<^verbatim>\<open>addEdge(u, v, l)\<close>, which inserts the
  edge into the forward and the reverse index (section 4.1).\<close>

definition graphAddEdge :: "CFLRGraph \<Rightarrow> nat \<Rightarrow> nat \<Rightarrow> EdgeLabel \<Rightarrow> CFLRGraph" where
  "graphAddEdge g u v l =
     \<lparr>succMap = insert2 (succMap g) u l v, predMap = insert2 (predMap g) v l u\<rparr>"

text \<open>
  Modelled from the spec: the work list (section 4.2). The specification allows a FIFO
  or a LIFO discipline, so the discipline is a parameter of the model. \<open>pop\<close> takes the
  head of the list; \<open>push\<close> appends at the back (FIFO) or at the front (LIFO).
\<close>

datatype Discipline = FIFO | LIFO

text \<open>
  The solver object: its graph and its work list. The field \<open>pushLog\<close> is a history
  variable: it records every call of \<^verbatim>\<open>workList.push\<close> in order and is never read by
  the solver.
\<close>

record CFLR =
  graph :: CFLRGraph
  workList :: "CFLREdge list"
  pushLog :: "CFLREdge list"

definition push :: "Discipline \<Rightarrow> CFLREdge \<Rightarrow> CFLR \<Rightarrow> CFLR" where
  "push d e s =
     s\<lparr>workList := (case d of FIFO \<Rightarrow> workList s @ [e] | LIFO \<Rightarrow> e # workList s),
       pushLog := pushLog s @ [e]\<rparr>"

section \<open>The solver\<close>

text \<open>The lambda \<^verbatim>\<open>addEdge\<close> of \<^verbatim>\<open>CFLR::solve\<close>: insertion with symmetry maintenance.\<close>

definition addEdge :: "Discipline \<Rightarrow> nat \<Rightarrow> nat \<Rightarrow> EdgeLabel \<Rightarrow> CFLR \<Rightarrow> CFLR" where
  "addEdge d u v lbl s =
     (if \<not> hasEdge (graph s) u v lbl then
        let s1 = push d (CFLREdge u v lbl) (s\<lparr>graph := graphAddEdge (graph s) u v lbl\<rparr>)
        in if lbl = PT then
             (if \<not> hasEdge (graph s1) v u PTBar then
                push d (CFLREdge v u PTBar) (s1\<lparr>graph := graphAddEdge (graph s1) v u PTBar\<rparr>)
              else s1)
           else if lbl = Copy then
             (if \<not> hasEdge (graph s1) v u CopyBar then
                push d (CFLREdge v u CopyBar) (s1\<lparr>graph := graphAddEdge (graph s1) v u CopyBar\<rparr>)
              else s1)
           else s1
      else s)"

text \<open>The initialisation loop: every edge of the successor map is pushed.\<close>

definition seedWorkList :: "Discipline \<Rightarrow> CFLR \<Rightarrow> CFLR" where
  "seedWorkList d s =
     fold (\<lambda>(u, lm). fold (\<lambda>(lbl, vs). fold (\<lambda>v. push d (CFLREdge u v lbl)) vs) lm)
       (succMap (graph s)) s"

text \<open>The unary production \<open>AddrBar \<rightarrow> PT\<close>.\<close>

definition unaryRule :: "Discipline \<Rightarrow> nat \<Rightarrow> nat \<Rightarrow> EdgeLabel \<Rightarrow> CFLR \<Rightarrow> CFLR" where
  "unaryRule d u v lbl s = (if lbl = AddrBar then addEdge d u v PT s else s)"

text \<open>
  One range-for loop of the solver: \<^verbatim>\<open>if (m.count(l)) for (w : m[l]) ...\<close>, where the
  loop body is an \<^verbatim>\<open>addEdge\<close> call.
\<close>

definition forEach :: "LabelMap \<Rightarrow> EdgeLabel \<Rightarrow> (nat \<Rightarrow> CFLR \<Rightarrow> CFLR) \<Rightarrow> CFLR \<Rightarrow> CFLR" where
  "forEach m l body s = (case map_of m l of None \<Rightarrow> s | Some ws \<Rightarrow> fold body ws s)"

text \<open>Case A of the loop body: the popped edge \<open>u \<rightarrow> v\<close> is the left operand.\<close>

definition matchRight :: "Discipline \<Rightarrow> nat \<Rightarrow> nat \<Rightarrow> EdgeLabel \<Rightarrow> CFLR \<Rightarrow> CFLR" where
  "matchRight d u v lbl s =
     (case map_of (succMap (graph s)) v of
        None \<Rightarrow> s
      | Some succs \<Rightarrow>
          if lbl = CopyBar then forEach succs PT (\<lambda>w. addEdge d u w PT) s
          else if lbl = Store then forEach succs PT (\<lambda>w. addEdge d u w PV) s
          else if lbl = PTBar then forEach succs Load (\<lambda>w. addEdge d u w VP) s
          else if lbl = PV then forEach succs VP (\<lambda>w. addEdge d u w Copy) s
          else s)"

text \<open>
  Case B of the loop body: the popped edge \<open>u \<rightarrow> v\<close> is the right operand. For the label
  \<open>PT\<close> the code runs two loops through the reference \<^verbatim>\<open>preds\<close>; the second loop reads
  the predecessor map as the first loop left it.
\<close>

definition predsOf :: "CFLR \<Rightarrow> nat \<Rightarrow> LabelMap" where
  "predsOf s u = (case map_of (predMap (graph s)) u of None \<Rightarrow> [] | Some lm \<Rightarrow> lm)"

definition matchLeft :: "Discipline \<Rightarrow> nat \<Rightarrow> nat \<Rightarrow> EdgeLabel \<Rightarrow> CFLR \<Rightarrow> CFLR" where
  "matchLeft d u v lbl s =
     (case map_of (predMap (graph s)) u of
        None \<Rightarrow> s
      | Some preds \<Rightarrow>
          if lbl = PT then
            (let s1 = forEach preds CopyBar (\<lambda>w. addEdge d w v PT) s
             in forEach (predsOf s1 u) Store (\<lambda>w. addEdge d w v PV) s1)
          else if lbl = Load then forEach preds PTBar (\<lambda>w. addEdge d w v VP) s
          else if lbl = VP then forEach preds PV (\<lambda>w. addEdge d w v Copy) s
          else s)"

text \<open>The body of the main loop for the popped edge.\<close>

definition process :: "Discipline \<Rightarrow> CFLREdge \<Rightarrow> CFLR \<Rightarrow> CFLR" where
  "process d e s =
     matchLeft d (src e) (dst e) (label e)
       (matchRight d (src e) (dst e) (label e)
          (unaryRule d (src e) (dst e) (label e) s))"

text \<open>One iteration of the main loop; the identity once the work list is empty.\<close>

definition step :: "Discipline \<Rightarrow> CFLR \<Rightarrow> CFLR" where
  "step d s =
     (case workList s of
        [] \<Rightarrow> s
      | e # rest \<Rightarrow> process d e (s\<lparr>workList := rest\<rparr>))"

text \<open>The main loop. It may run forever as far as its definition goes, so it returns an
  option: \<open>None\<close> stands for a run that never leaves the loop.\<close>

partial_function (option) mainLoop :: "Discipline \<Rightarrow> CFLR \<Rightarrow> CFLR option" where
  "mainLoop d s =
     (case workList s of
        [] \<Rightarrow> Some s
      | e # rest \<Rightarrow> mainLoop d (process d e (s\<lparr>workList := rest\<rparr>)))"

text \<open>The solver object as \<^verbatim>\<open>main\<close> hands it to \<^verbatim>\<open>solve\<close>: a graph and an empty work
  list.\<close>

definition newCFLR :: "CFLRGraph \<Rightarrow> CFLR" where
  "newCFLR g = \<lparr>graph = g, workList = [], pushLog = []\<rparr>"

definition solve :: "Discipline \<Rightarrow> CFLR \<Rightarrow> CFLR option" where
  "solve d s = mainLoop d (seedWorkList d s)"

text \<open>The edge set of a graph, and the graph built from a list of edges.\<close>

definition edges :: "CFLRGraph \<Rightarrow> CFLREdge set" where
  "edges g = {e. hasEdge g (src e) (dst e) (label e)}"

definition emptyGraph :: CFLRGraph where
  "emptyGraph = \<lparr>succMap = [], predMap = []\<rparr>"

definition buildGraph :: "CFLREdge list \<Rightarrow> CFLRGraph" where
  "buildGraph es = fold (\<lambda>e g. graphAddEdge g (src e) (dst e) (label e)) es emptyGraph"

section \<open>The graph operations on the edge set\<close>

definition hasPred :: "CFLRGraph \<Rightarrow> nat \<Rightarrow> nat \<Rightarrow> EdgeLabel \<Rightarrow> bool" where
  "hasPred g u v l = (u \<in> set (lookup2 (predMap g) v l))"

definition predEdges :: "CFLRGraph \<Rightarrow> CFLREdge set" where
  "predEdges g = {e. hasPred g (src e) (dst e) (label e)}"

lemma lookup2_insert2:
  "lookup2 (insert2 m u l v) u' l' =
     (if u' = u \<and> l' = l
      then (if v \<in> set (lookup2 m u l) then lookup2 m u l else lookup2 m u l @ [v])
      else lookup2 m u' l')"
  by (auto simp: lookup2_def insert2_def Let_def update_conv' split: option.splits)

lemma hasEdge_graphAddEdge:
  "hasEdge (graphAddEdge g a b l) u v l' = (hasEdge g u v l' \<or> (u = a \<and> v = b \<and> l' = l))"
  by (auto simp: hasEdge_def graphAddEdge_def lookup2_insert2)

lemma hasPred_graphAddEdge:
  "hasPred (graphAddEdge g a b l) u v l' = (hasPred g u v l' \<or> (u = a \<and> v = b \<and> l' = l))"
  by (auto simp: hasPred_def graphAddEdge_def lookup2_insert2)

lemma edges_iff: "(CFLREdge u v l \<in> edges g) = hasEdge g u v l"
  by (simp add: edges_def)

lemma predEdges_iff: "(CFLREdge u v l \<in> predEdges g) = hasPred g u v l"
  by (simp add: predEdges_def)

lemma edges_graphAddEdge: "edges (graphAddEdge g a b l) = insert (CFLREdge a b l) (edges g)"
proof (rule set_eqI)
  fix e show "(e \<in> edges (graphAddEdge g a b l)) = (e \<in> insert (CFLREdge a b l) (edges g))"
    by (cases e) (auto simp: edges_iff hasEdge_graphAddEdge)
qed

lemma predEdges_graphAddEdge:
  "predEdges (graphAddEdge g a b l) = insert (CFLREdge a b l) (predEdges g)"
proof (rule set_eqI)
  fix e show "(e \<in> predEdges (graphAddEdge g a b l)) = (e \<in> insert (CFLREdge a b l) (predEdges g))"
    by (cases e) (auto simp: predEdges_iff hasPred_graphAddEdge)
qed

section \<open>What one call of the insertion helper does\<close>

text \<open>The edges that a call \<open>addEdge d a b l\<close> inserts into a graph \<open>g\<close>, in order.\<close>

definition newEdges :: "CFLRGraph \<Rightarrow> nat \<Rightarrow> nat \<Rightarrow> EdgeLabel \<Rightarrow> CFLREdge list" where
  "newEdges g a b l =
     (if hasEdge g a b l then []
      else CFLREdge a b l #
        (if l = PT \<and> \<not> hasEdge g b a PTBar then [CFLREdge b a PTBar]
         else if l = Copy \<and> \<not> hasEdge g b a CopyBar then [CFLREdge b a CopyBar]
         else []))"

definition pushAll :: "Discipline \<Rightarrow> CFLREdge list \<Rightarrow> CFLREdge list \<Rightarrow> CFLREdge list" where
  "pushAll d es wl = (case d of FIFO \<Rightarrow> wl @ es | LIFO \<Rightarrow> rev es @ wl)"

lemma pushAll_Nil [simp]: "pushAll d [] wl = wl"
  by (simp add: pushAll_def split: Discipline.splits)

lemma pushAll_append: "pushAll d (xs @ ys) wl = pushAll d ys (pushAll d xs wl)"
  by (simp add: pushAll_def split: Discipline.splits)

lemma set_pushAll [simp]: "set (pushAll d es wl) = set wl \<union> set es"
  by (auto simp: pushAll_def split: Discipline.splits)

lemma length_pushAll [simp]: "length (pushAll d es wl) = length wl + length es"
  by (simp add: pushAll_def split: Discipline.splits)

lemma graph_push [simp]: "graph (push d e s) = graph s"
  by (simp add: push_def)

lemma pushLog_push [simp]: "pushLog (push d e s) = pushLog s @ [e]"
  by (simp add: push_def)

lemma workList_push [simp]: "workList (push d e s) = pushAll d [e] (workList s)"
  by (simp add: push_def pushAll_def split: Discipline.splits)

lemma addEdge_edges:
  "edges (graph (addEdge d a b l s)) = edges (graph s) \<union> set (newEdges (graph s) a b l)"
  by (auto simp: addEdge_def newEdges_def Let_def edges_graphAddEdge hasEdge_graphAddEdge edges_iff)

lemma addEdge_predEdges:
  "predEdges (graph (addEdge d a b l s)) = predEdges (graph s) \<union> set (newEdges (graph s) a b l)"
  by (auto simp: addEdge_def newEdges_def Let_def predEdges_graphAddEdge hasEdge_graphAddEdge)

lemma addEdge_pushLog:
  "pushLog (addEdge d a b l s) = pushLog s @ newEdges (graph s) a b l"
  by (auto simp: addEdge_def newEdges_def Let_def hasEdge_graphAddEdge)

lemma addEdge_workList:
  "workList (addEdge d a b l s) = pushAll d (newEdges (graph s) a b l) (workList s)"
  by (auto simp: addEdge_def newEdges_def Let_def hasEdge_graphAddEdge pushAll_def split: Discipline.splits)

lemma newEdges_distinct: "distinct (newEdges g a b l)"
  by (auto simp: newEdges_def)

lemma newEdges_fresh: "e \<in> set (newEdges g a b l) \<Longrightarrow> e \<notin> edges g"
  by (auto simp: newEdges_def edges_iff split: if_splits)

lemma newEdges_cases:
  "e \<in> set (newEdges g a b l) \<Longrightarrow>
     e = CFLREdge a b l \<or> (l = PT \<and> e = CFLREdge b a PTBar) \<or> (l = Copy \<and> e = CFLREdge b a CopyBar)"
  by (auto simp: newEdges_def split: if_splits)

lemma addEdge_hasEdge: "hasEdge (graph (addEdge d a b l s)) a b l"
  using addEdge_edges [of d a b l s]
  by (auto simp: newEdges_def edges_iff [symmetric] split: if_splits)

section \<open>The grammar\<close>

text \<open>The binary productions, as the comment block of the main loop lists them.\<close>

definition production :: "EdgeLabel \<Rightarrow> EdgeLabel \<Rightarrow> EdgeLabel option" where
  "production l1 l2 =
     (if l1 = CopyBar \<and> l2 = PT then Some PT
      else if l1 = Store \<and> l2 = PT then Some PV
      else if l1 = PTBar \<and> l2 = Load then Some VP
      else if l1 = PV \<and> l2 = VP then Some Copy
      else None)"

lemma production_cases:
  "production l1 l2 = Some l3 \<Longrightarrow>
     (l1 = CopyBar \<and> l2 = PT \<and> l3 = PT) \<or> (l1 = Store \<and> l2 = PT \<and> l3 = PV) \<or>
     (l1 = PTBar \<and> l2 = Load \<and> l3 = VP) \<or> (l1 = PV \<and> l2 = VP \<and> l3 = Copy)"
  by (auto simp: production_def split: if_splits)

text \<open>
  The calls of the insertion helper that the loop body may make for a popped edge \<open>e\<close>
  when the graph is \<open>g\<close>: the unary rule, a right match against a successor of the
  target, or a left match against a predecessor of the source.
\<close>

definition solverCall :: "CFLREdge \<Rightarrow> CFLRGraph \<Rightarrow> nat \<Rightarrow> nat \<Rightarrow> EdgeLabel \<Rightarrow> bool" where
  "solverCall e g a b l =
     ((label e = AddrBar \<and> a = src e \<and> b = dst e \<and> l = PT) \<or>
      (a = src e \<and> (\<exists>l2. hasEdge g (dst e) b l2 \<and> production (label e) l2 = Some l)) \<or>
      (b = dst e \<and> (\<exists>l1. hasPred g a (src e) l1 \<and> production l1 (label e) = Some l)))"

inductive reach :: "Discipline \<Rightarrow> CFLREdge \<Rightarrow> CFLR \<Rightarrow> CFLR \<Rightarrow> bool" for d e s where
  reach_refl: "reach d e s s"
| reach_call: "reach d e s t \<Longrightarrow> solverCall e (graph t) a b l \<Longrightarrow> reach d e s (addEdge d a b l t)"

lemma addEdge_mono: "edges (graph s) \<subseteq> edges (graph (addEdge d a b l s))"
  by (simp add: addEdge_edges)

lemma addEdge_pred_mono: "predEdges (graph s) \<subseteq> predEdges (graph (addEdge d a b l s))"
  by (simp add: addEdge_predEdges)

lemma hasEdge_mono: "edges g \<subseteq> edges g' \<Longrightarrow> hasEdge g u v l \<Longrightarrow> hasEdge g' u v l"
  by (auto simp: edges_iff [symmetric])

lemma hasPred_mono: "predEdges g \<subseteq> predEdges g' \<Longrightarrow> hasPred g u v l \<Longrightarrow> hasPred g' u v l"
  by (auto simp: predEdges_iff [symmetric])

lemma lookup2_Some:
  "map_of m u = Some lm \<Longrightarrow> map_of lm l = Some ws \<Longrightarrow> lookup2 m u l = ws"
  by (simp add: lookup2_def)

lemma reach_fold_right:
  assumes "\<forall>w\<in>set ws. hasEdge (graph t0) (dst e) w l2" and "production (label e) l2 = Some l"
  shows "reach d e s t \<Longrightarrow> edges (graph t0) \<subseteq> edges (graph t) \<Longrightarrow>
           reach d e s (fold (\<lambda>w. addEdge d (src e) w l) ws t)"
  using assms(1)
proof (induction ws arbitrary: t)
  case Nil
  then show ?case by simp
next
  case (Cons w ws)
  have "hasEdge (graph t) (dst e) w l2"
    using Cons.prems by (auto intro: hasEdge_mono)
  then have "solverCall e (graph t) (src e) w l"
    using assms(2) by (auto simp: solverCall_def)
  then have "reach d e s (addEdge d (src e) w l t)"
    using Cons.prems(1) by (rule reach_call [rotated])
  moreover have "edges (graph t0) \<subseteq> edges (graph (addEdge d (src e) w l t))"
    using Cons.prems(2) addEdge_mono [of t d "src e" w l] by blast
  ultimately show ?case
    using Cons.IH Cons.prems(3) by simp
qed

lemma reach_fold_left:
  assumes "\<forall>w\<in>set ws. hasPred (graph t0) w (src e) l1" and "production l1 (label e) = Some l"
  shows "reach d e s t \<Longrightarrow> predEdges (graph t0) \<subseteq> predEdges (graph t) \<Longrightarrow>
           reach d e s (fold (\<lambda>w. addEdge d w (dst e) l) ws t)"
  using assms(1)
proof (induction ws arbitrary: t)
  case Nil
  then show ?case by simp
next
  case (Cons w ws)
  have "hasPred (graph t) w (src e) l1"
    using Cons.prems by (auto intro: hasPred_mono)
  then have "solverCall e (graph t) w (dst e) l"
    using assms(2) by (auto simp: solverCall_def)
  then have "reach d e s (addEdge d w (dst e) l t)"
    using Cons.prems(1) by (rule reach_call [rotated])
  moreover have "predEdges (graph t0) \<subseteq> predEdges (graph (addEdge d w (dst e) l t))"
    using Cons.prems(2) addEdge_pred_mono [of t d w "dst e" l] by blast
  ultimately show ?case
    using Cons.IH Cons.prems(3) by simp
qed

lemma reach_forEach_right:
  assumes "map_of (succMap (graph t)) (dst e) = Some succs"
    and "production (label e) l2 = Some l" and "reach d e s t"
  shows "reach d e s (forEach succs l2 (\<lambda>w. addEdge d (src e) w l) t)"
proof (cases "map_of succs l2")
  case None
  then show ?thesis using assms(3) by (simp add: forEach_def)
next
  case (Some ws)
  have "\<forall>w\<in>set ws. hasEdge (graph t) (dst e) w l2"
    using lookup2_Some [OF assms(1) Some] by (simp add: hasEdge_def)
  then show ?thesis
    using reach_fold_right [OF _ assms(2), of ws t d s t] assms(3) Some
    by (simp add: forEach_def)
qed

lemma reach_forEach_left:
  assumes "map_of (predMap (graph t)) (src e) = Some preds"
    and "production l1 (label e) = Some l" and "reach d e s t"
  shows "reach d e s (forEach preds l1 (\<lambda>w. addEdge d w (dst e) l) t)"
proof (cases "map_of preds l1")
  case None
  then show ?thesis using assms(3) by (simp add: forEach_def)
next
  case (Some ws)
  have "\<forall>w\<in>set ws. hasPred (graph t) w (src e) l1"
    using lookup2_Some [OF assms(1) Some] by (simp add: hasPred_def)
  then show ?thesis
    using reach_fold_left [OF _ assms(2), of ws t d s t] assms(3) Some
    by (simp add: forEach_def)
qed

lemma reach_unaryRule:
  "reach d e s t \<Longrightarrow> reach d e s (unaryRule d (src e) (dst e) (label e) t)"
  by (auto simp: unaryRule_def solverCall_def intro: reach_call)

lemma reach_matchRight:
  assumes "reach d e s t"
  shows "reach d e s (matchRight d (src e) (dst e) (label e) t)"
proof (cases "map_of (succMap (graph t)) (dst e)")
  case None
  then show ?thesis using assms by (simp add: matchRight_def)
next
  case (Some succs)
  show ?thesis
    using Some assms
    by (auto simp: matchRight_def production_def intro!: reach_forEach_right)
qed

lemma reach_mono: "reach d e s t \<Longrightarrow> edges (graph s) \<subseteq> edges (graph t)"
  by (induction rule: reach.induct) (auto simp: addEdge_edges)

lemma reach_pred_mono: "reach d e s t \<Longrightarrow> predEdges (graph s) \<subseteq> predEdges (graph t)"
  by (induction rule: reach.induct) (auto simp: addEdge_predEdges)

lemma reach_trans: "reach d e t r \<Longrightarrow> reach d e s t \<Longrightarrow> reach d e s r"
  by (induction rule: reach.induct) (auto intro: reach.intros)

lemma predsOf_Some:
  "map_of (predMap (graph t)) u = Some preds \<Longrightarrow> predsOf t u = preds"
  by (simp add: predsOf_def)

lemma reach_matchLeft:
  assumes "reach d e s t"
  shows "reach d e s (matchLeft d (src e) (dst e) (label e) t)"
proof (cases "map_of (predMap (graph t)) (src e)")
  case None
  then show ?thesis using assms by (simp add: matchLeft_def)
next
  case (Some preds)
  show ?thesis
  proof (cases "label e = PT")
    case True
    define t1 where "t1 = forEach preds CopyBar (\<lambda>w. addEdge d w (dst e) PT) t"
    have r1: "reach d e s t1"
      unfolding t1_def using Some True assms
      by (auto simp: production_def intro!: reach_forEach_left)
    have "reach d e s (forEach (predsOf t1 (src e)) Store (\<lambda>w. addEdge d w (dst e) PV) t1)"
    proof (cases "map_of (predMap (graph t1)) (src e)")
      case None
      then show ?thesis using r1 by (simp add: predsOf_def forEach_def)
    next
      case (Some preds1)
      then show ?thesis
        using r1 True by (auto simp: predsOf_Some production_def intro!: reach_forEach_left)
    qed
    then show ?thesis
      using Some True by (simp add: matchLeft_def t1_def Let_def)
  next
    case False
    then show ?thesis
      using Some assms
      by (auto simp: matchLeft_def production_def intro!: reach_forEach_left)
  qed
qed

lemma reach_process: "reach d e s (process d e s)"
  unfolding process_def
  by (intro reach_matchLeft reach_matchRight reach_unaryRule reach_refl)

section \<open>Every match of the popped edge is made\<close>

lemma reach_log:
  "reach d e s t \<Longrightarrow>
     \<exists>new. pushLog t = pushLog s @ new \<and> workList t = pushAll d new (workList s) \<and>
           edges (graph t) = edges (graph s) \<union> set new \<and>
           predEdges (graph t) = predEdges (graph s) \<union> set new \<and>
           distinct new \<and> set new \<inter> edges (graph s) = {}"
proof (induction rule: reach.induct)
  case reach_refl
  show ?case by (rule exI [of _ "[]"]) simp
next
  case (reach_call t a b l)
  then obtain new where new: "pushLog t = pushLog s @ new"
    "workList t = pushAll d new (workList s)"
    "edges (graph t) = edges (graph s) \<union> set new"
    "predEdges (graph t) = predEdges (graph s) \<union> set new"
    "distinct new" "set new \<inter> edges (graph s) = {}"
    by blast
  let ?n = "newEdges (graph t) a b l"
  have fresh: "set ?n \<inter> edges (graph t) = {}"
    using newEdges_fresh by blast
  have "distinct (new @ ?n)"
    using new(5) newEdges_distinct [of "graph t" a b l] fresh new(3) by auto
  moreover have "set (new @ ?n) \<inter> edges (graph s) = {}"
    using new(6) fresh new(3) by auto
  ultimately show ?case
    by (intro exI [of _ "new @ ?n"])
       (simp add: addEdge_pushLog addEdge_workList addEdge_edges addEdge_predEdges new
          pushAll_append Un_assoc)
qed

lemma unaryRule_mono: "edges (graph t) \<subseteq> edges (graph (unaryRule d (src e) (dst e) (label e) t))"
  by (rule reach_mono [OF reach_unaryRule [OF reach_refl]])

lemma matchRight_mono: "edges (graph t) \<subseteq> edges (graph (matchRight d (src e) (dst e) (label e) t))"
  by (rule reach_mono [OF reach_matchRight [OF reach_refl]])

lemma matchLeft_mono: "edges (graph t) \<subseteq> edges (graph (matchLeft d (src e) (dst e) (label e) t))"
  by (rule reach_mono [OF reach_matchLeft [OF reach_refl]])

lemma unaryRule_pred_mono:
  "predEdges (graph t) \<subseteq> predEdges (graph (unaryRule d (src e) (dst e) (label e) t))"
  by (rule reach_pred_mono [OF reach_unaryRule [OF reach_refl]])

lemma matchRight_pred_mono:
  "predEdges (graph t) \<subseteq> predEdges (graph (matchRight d (src e) (dst e) (label e) t))"
  by (rule reach_pred_mono [OF reach_matchRight [OF reach_refl]])

lemma fold_addEdge_mono:
  "edges (graph t) \<subseteq> edges (graph (fold (\<lambda>w. addEdge d (f w) (h w) l) ws t))"
proof (induction ws arbitrary: t)
  case Nil
  show ?case by simp
next
  case (Cons w ws)
  show ?case
    using Cons.IH [of "addEdge d (f w) (h w) l t"] addEdge_mono [of t d "f w" "h w" l]
    by auto
qed

lemma fold_addEdge_pred_mono:
  "predEdges (graph t) \<subseteq> predEdges (graph (fold (\<lambda>w. addEdge d (f w) (h w) l) ws t))"
proof (induction ws arbitrary: t)
  case Nil
  show ?case by simp
next
  case (Cons w ws)
  show ?case
    using Cons.IH [of "addEdge d (f w) (h w) l t"] addEdge_pred_mono [of t d "f w" "h w" l]
    by auto
qed

lemma fold_addEdge_complete:
  "w \<in> set ws \<Longrightarrow> hasEdge (graph (fold (\<lambda>w. addEdge d (f w) (h w) l) ws t)) (f w) (h w) l"
proof (induction ws arbitrary: t)
  case Nil
  then show ?case by simp
next
  case (Cons x ws)
  show ?case
  proof (cases "w = x")
    case True
    have "hasEdge (graph (addEdge d (f x) (h x) l t)) (f x) (h x) l"
      by (rule addEdge_hasEdge)
    then show ?thesis
      using True fold_addEdge_mono [of "addEdge d (f x) (h x) l t" d f h l ws]
      by (auto intro: hasEdge_mono)
  next
    case False
    then show ?thesis using Cons by simp
  qed
qed

lemma forEach_complete:
  assumes "map_of m k = Some ws" and "w \<in> set ws"
  shows "hasEdge (graph (forEach m k (\<lambda>w. addEdge d (f w) (h w) l) t)) (f w) (h w) l"
  using assms fold_addEdge_complete [of w ws d f h l t] by (simp add: forEach_def)

lemma forEach_mono:
  "edges (graph t) \<subseteq> edges (graph (forEach m k (\<lambda>w. addEdge d (f w) (h w) l) t))"
  using fold_addEdge_mono [of t d f h l] by (simp add: forEach_def split: option.splits)

lemma forEach_pred_mono:
  "predEdges (graph t) \<subseteq> predEdges (graph (forEach m k (\<lambda>w. addEdge d (f w) (h w) l) t))"
  using fold_addEdge_pred_mono [of t d f h l] by (simp add: forEach_def split: option.splits)

lemma in_lookup2D:
  assumes "w \<in> set (lookup2 m u l)"
  shows "\<exists>lm ws. map_of m u = Some lm \<and> map_of lm l = Some ws \<and> w \<in> set ws"
proof (cases "map_of m u")
  case None
  then show ?thesis using assms by (simp add: lookup2_def)
next
  case (Some lm)
  then show ?thesis using assms by (cases "map_of lm l") (simp_all add: lookup2_def)
qed

lemma matchRight_complete:
  assumes "hasEdge (graph t) (dst e) w l2" and "production (label e) l2 = Some l3"
  shows "hasEdge (graph (matchRight d (src e) (dst e) (label e) t)) (src e) w l3"
proof -
  obtain succs ws where m: "map_of (succMap (graph t)) (dst e) = Some succs"
    "map_of succs l2 = Some ws" "w \<in> set ws"
    using assms(1) in_lookup2D unfolding hasEdge_def by blast
  have "hasEdge (graph (forEach succs l2 (\<lambda>w. addEdge d (src e) w l3) t)) (src e) w l3"
    using forEach_complete [OF m(2,3), of d "\<lambda>_. src e" "\<lambda>w. w" l3 t] by simp
  then show ?thesis
    using production_cases [OF assms(2)] m(1) by (auto simp: matchRight_def)
qed

lemma matchLeft_complete:
  assumes "hasPred (graph t) w (src e) l1" and "production l1 (label e) = Some l3"
  shows "hasEdge (graph (matchLeft d (src e) (dst e) (label e) t)) w (dst e) l3"
proof -
  obtain preds ws where m: "map_of (predMap (graph t)) (src e) = Some preds"
    "map_of preds l1 = Some ws" "w \<in> set ws"
    using assms(1) in_lookup2D unfolding hasPred_def by blast
  have one: "hasEdge (graph (forEach preds l1 (\<lambda>w. addEdge d w (dst e) l3) t)) w (dst e) l3"
    using forEach_complete [OF m(2,3), of d "\<lambda>w. w" "\<lambda>_. dst e" l3 t] by simp
  consider (copybar) "l1 = CopyBar" "label e = PT" "l3 = PT"
    | (store) "l1 = Store" "label e = PT" "l3 = PV"
    | (load) "l1 = PTBar" "label e = Load" "l3 = VP"
    | (vp) "l1 = PV" "label e = VP" "l3 = Copy"
    using production_cases [OF assms(2)] by blast
  then show ?thesis
  proof cases
    case copybar
    define t1 where "t1 = forEach preds CopyBar (\<lambda>w. addEdge d w (dst e) PT) t"
    have "hasEdge (graph t1) w (dst e) PT"
      using one copybar by (simp add: t1_def)
    then have "hasEdge (graph (forEach (predsOf t1 (src e)) Store (\<lambda>w. addEdge d w (dst e) PV) t1))
                 w (dst e) PT"
      using forEach_mono [of t1 "predsOf t1 (src e)" Store d "\<lambda>w. w" "\<lambda>_. dst e" PV]
      by (auto intro: hasEdge_mono)
    then show ?thesis
      using m(1) copybar by (simp add: matchLeft_def Let_def t1_def)
  next
    case store
    define t1 where "t1 = forEach preds CopyBar (\<lambda>w. addEdge d w (dst e) PT) t"
    have "hasPred (graph t1) w (src e) Store"
      using assms(1) store
        forEach_pred_mono [of t preds CopyBar d "\<lambda>w. w" "\<lambda>_. dst e" PT]
      by (auto simp: t1_def intro: hasPred_mono)
    then obtain preds1 ws1 where m1: "map_of (predMap (graph t1)) (src e) = Some preds1"
      "map_of preds1 Store = Some ws1" "w \<in> set ws1"
      using in_lookup2D unfolding hasPred_def by blast
    have "hasEdge (graph (forEach preds1 Store (\<lambda>w. addEdge d w (dst e) PV) t1)) w (dst e) PV"
      using forEach_complete [OF m1(2,3), of d "\<lambda>w. w" "\<lambda>_. dst e" PV t1] by simp
    then show ?thesis
      using m(1) store m1(1) by (simp add: matchLeft_def Let_def t1_def predsOf_def)
  next
    case load
    then show ?thesis using one m(1) by (simp add: matchLeft_def)
  next
    case vp
    then show ?thesis using one m(1) by (simp add: matchLeft_def)
  qed
qed

lemma process_complete_unary:
  assumes "label e = AddrBar"
  shows "hasEdge (graph (process d e s)) (src e) (dst e) PT"
proof -
  have "hasEdge (graph (unaryRule d (src e) (dst e) (label e) s)) (src e) (dst e) PT"
    using assms by (simp add: unaryRule_def addEdge_hasEdge)
  then show ?thesis
    unfolding process_def
    using matchRight_mono matchLeft_mono by (blast intro: hasEdge_mono)
qed

lemma process_complete_right:
  assumes "hasEdge (graph s) (dst e) w l2" and "production (label e) l2 = Some l3"
  shows "hasEdge (graph (process d e s)) (src e) w l3"
proof -
  have "hasEdge (graph (unaryRule d (src e) (dst e) (label e) s)) (dst e) w l2"
    using assms(1) unaryRule_mono by (blast intro: hasEdge_mono)
  then have "hasEdge (graph (matchRight d (src e) (dst e) (label e)
      (unaryRule d (src e) (dst e) (label e) s))) (src e) w l3"
    using assms(2) by (rule matchRight_complete)
  then show ?thesis
    unfolding process_def using matchLeft_mono by (blast intro: hasEdge_mono)
qed

lemma process_complete_left:
  assumes "hasPred (graph s) w (src e) l1" and "production l1 (label e) = Some l3"
  shows "hasEdge (graph (process d e s)) w (dst e) l3"
proof -
  have "hasPred (graph (unaryRule d (src e) (dst e) (label e) s)) w (src e) l1"
    using assms(1) unaryRule_pred_mono by (blast intro: hasPred_mono)
  then have "hasPred (graph (matchRight d (src e) (dst e) (label e)
      (unaryRule d (src e) (dst e) (label e) s))) w (src e) l1"
    using matchRight_pred_mono by (blast intro: hasPred_mono)
  then show ?thesis
    unfolding process_def using assms(2) by (rule matchLeft_complete)
qed

section \<open>The loops do not change the container they range over\<close>

text \<open>
  The code ranges over the live sets \<^verbatim>\<open>succs[l]\<close> and \<^verbatim>\<open>preds[l]\<close> while its loop body
  inserts edges; the model ranges over the list read at loop entry. The two agree, because
  no loop of the solver changes the set it ranges over: the inserted edges carry another
  label, or (for \<open>CopyBar \<cdot> PT \<rightarrow> PT\<close> on a self-loop) are already present.
\<close>

lemma addEdge_succ_frame:
  assumes "hasEdge (graph s) a b l \<or> (x, k) \<noteq> (a, l)"
    and "k \<noteq> PTBar" and "k \<noteq> CopyBar"
  shows "lookup2 (succMap (graph (addEdge d a b l s))) x k = lookup2 (succMap (graph s)) x k"
  using assms
  by (auto simp: addEdge_def Let_def graphAddEdge_def lookup2_insert2)

lemma addEdge_pred_frame:
  assumes "k \<noteq> l" and "l = PT \<longrightarrow> k \<noteq> PTBar" and "l = Copy \<longrightarrow> k \<noteq> CopyBar"
  shows "lookup2 (predMap (graph (addEdge d a b l s))) x k = lookup2 (predMap (graph s)) x k"
  using assms
  by (auto simp: addEdge_def Let_def graphAddEdge_def lookup2_insert2)

lemma loop_frame_right:
  assumes "production l1 l2 = Some l3"
  shows "set ws \<subseteq> set (lookup2 (succMap (graph s)) v l2) \<Longrightarrow>
     lookup2 (succMap (graph (fold (\<lambda>w. addEdge d u w l3) ws s))) v l2 =
       lookup2 (succMap (graph s)) v l2"
proof (induction ws arbitrary: s)
  case Nil
  show ?case by simp
next
  case (Cons w ws)
  have w: "hasEdge (graph s) v w l2"
    using Cons.prems by (simp add: hasEdge_def)
  have "hasEdge (graph s) u w l3 \<or> (v, l2) \<noteq> (u, l3)"
    using w by auto
  moreover have "l2 \<noteq> PTBar" "l2 \<noteq> CopyBar"
    using production_cases [OF assms] by auto
  ultimately have one: "lookup2 (succMap (graph (addEdge d u w l3 s))) v l2 =
      lookup2 (succMap (graph s)) v l2"
    by (rule addEdge_succ_frame)
  then show ?case
    using Cons.IH [of "addEdge d u w l3 s"] Cons.prems by simp
qed

lemma loop_frame_left:
  assumes "production l1 l2 = Some l3"
  shows "lookup2 (predMap (graph (fold (\<lambda>w. addEdge d w v l3) ws s))) u l1 =
           lookup2 (predMap (graph s)) u l1"
proof (induction ws arbitrary: s)
  case Nil
  show ?case by simp
next
  case (Cons w ws)
  have "l1 \<noteq> l3" "l3 = PT \<longrightarrow> l1 \<noteq> PTBar" "l3 = Copy \<longrightarrow> l1 \<noteq> CopyBar"
    using production_cases [OF assms] by auto
  then have "lookup2 (predMap (graph (addEdge d w v l3 s))) u l1 =
      lookup2 (predMap (graph s)) u l1"
    by (rule addEdge_pred_frame)
  then show ?case
    using Cons.IH [of "addEdge d w v l3 s"] by simp
qed

section \<open>The initial graph and the seeding loop\<close>

text \<open>The edges in the order in which the seeding loop enumerates the successor map, and
  the same enumeration of the predecessor map.\<close>

definition edgeList :: "CFLRGraph \<Rightarrow> CFLREdge list" where
  "edgeList g =
     concat (map (\<lambda>(u, lm). concat (map (\<lambda>(l, vs). map (\<lambda>v. CFLREdge u v l) vs) lm))
       (succMap g))"

definition predList :: "CFLRGraph \<Rightarrow> CFLREdge list" where
  "predList g =
     concat (map (\<lambda>(v, lm). concat (map (\<lambda>(l, us). map (\<lambda>u. CFLREdge u v l) us) lm))
       (predMap g))"

text \<open>
  The representation invariant of a graph as the frontend hands it over: the successor
  map has no key twice and no set lists a node twice, and the two indices hold the same
  edges.
\<close>

definition wfMap :: "DataMap \<Rightarrow> bool" where
  "wfMap m =
     (distinct (map fst m) \<and>
      (\<forall>(u, lm) \<in> set m. distinct (map fst lm) \<and> (\<forall>(l, vs) \<in> set lm. distinct vs)))"

definition wfGraph :: "CFLRGraph \<Rightarrow> bool" where
  "wfGraph g =
     (wfMap (succMap g) \<and>
      (\<forall>e \<in> set (edgeList g). hasPred g (src e) (dst e) (label e)) \<and>
      (\<forall>e \<in> set (predList g). hasEdge g (src e) (dst e) (label e)))"

definition pushList :: "Discipline \<Rightarrow> CFLREdge list \<Rightarrow> CFLR \<Rightarrow> CFLR" where
  "pushList d es s = s\<lparr>workList := pushAll d es (workList s), pushLog := pushLog s @ es\<rparr>"

lemma pushList_Nil [simp]: "pushList d [] s = s"
  by (simp add: pushList_def)

lemma pushList_pushList: "pushList d ys (pushList d xs s) = pushList d (xs @ ys) s"
  by (simp add: pushList_def pushAll_append)

lemma push_pushList: "push d e s = pushList d [e] s"
  by (simp add: push_def pushList_def pushAll_def split: Discipline.splits)

lemma fold_push: "fold (\<lambda>v. push d (f v)) vs s = pushList d (map f vs) s"
proof (induction vs arbitrary: s)
  case Nil
  show ?case by simp
next
  case (Cons v vs)
  have "fold (\<lambda>v. push d (f v)) (v # vs) s = fold (\<lambda>v. push d (f v)) vs (push d (f v) s)"
    by simp
  also have "\<dots> = pushList d (map f vs) (pushList d [f v] s)"
    by (simp only: Cons.IH push_pushList)
  finally show ?case
    by (simp add: pushList_pushList)
qed

lemma fold_push_labels:
  "fold (\<lambda>(l, vs). fold (\<lambda>v. push d (CFLREdge u v l)) vs) lm s =
     pushList d (concat (map (\<lambda>(l, vs). map (\<lambda>v. CFLREdge u v l) vs) lm)) s"
proof (induction lm arbitrary: s)
  case Nil
  show ?case by simp
next
  case (Cons p lm)
  obtain l vs where p: "p = (l, vs)" by (cases p)
  have "fold (\<lambda>(l, vs). fold (\<lambda>v. push d (CFLREdge u v l)) vs) (p # lm) s =
          fold (\<lambda>(l, vs). fold (\<lambda>v. push d (CFLREdge u v l)) vs) lm
            (fold (\<lambda>v. push d (CFLREdge u v l)) vs s)"
    by (simp add: p)
  also have "\<dots> = pushList d (concat (map (\<lambda>(l, vs). map (\<lambda>v. CFLREdge u v l) vs) lm))
                      (pushList d (map (\<lambda>v. CFLREdge u v l) vs) s)"
    by (simp only: Cons.IH fold_push)
  finally show ?case
    by (simp add: pushList_pushList p)
qed

lemma fold_push_nodes:
  "fold (\<lambda>(u, lm). fold (\<lambda>(l, vs). fold (\<lambda>v. push d (CFLREdge u v l)) vs) lm) m s =
     pushList d
       (concat (map (\<lambda>(u, lm). concat (map (\<lambda>(l, vs). map (\<lambda>v. CFLREdge u v l) vs) lm)) m)) s"
proof (induction m arbitrary: s)
  case Nil
  show ?case by simp
next
  case (Cons p m)
  obtain u lm where p: "p = (u, lm)" by (cases p)
  have "fold (\<lambda>(u, lm). fold (\<lambda>(l, vs). fold (\<lambda>v. push d (CFLREdge u v l)) vs) lm) (p # m) s =
          fold (\<lambda>(u, lm). fold (\<lambda>(l, vs). fold (\<lambda>v. push d (CFLREdge u v l)) vs) lm) m
            (fold (\<lambda>(l, vs). fold (\<lambda>v. push d (CFLREdge u v l)) vs) lm s)"
    by (simp add: p)
  also have "\<dots> = pushList d
      (concat (map (\<lambda>(u, lm). concat (map (\<lambda>(l, vs). map (\<lambda>v. CFLREdge u v l) vs) lm)) m))
      (pushList d (concat (map (\<lambda>(l, vs). map (\<lambda>v. CFLREdge u v l) vs) lm)) s)"
    by (simp only: Cons.IH fold_push_labels)
  finally show ?case
    by (simp add: pushList_pushList p)
qed

lemma seedWorkList_eq: "seedWorkList d s = pushList d (edgeList (graph s)) s"
  by (simp add: seedWorkList_def edgeList_def fold_push_nodes)

lemma in_concat_keyed:
  "(e \<in> set (concat (map (\<lambda>(k, x). f k x) m))) = (\<exists>k x. (k, x) \<in> set m \<and> e \<in> set (f k x))"
  by (induction m) auto

lemma in_edgeList_iff:
  "(e \<in> set (edgeList g)) =
     (\<exists>lm vs. (src e, lm) \<in> set (succMap g) \<and> (label e, vs) \<in> set lm \<and> dst e \<in> set vs)"
  unfolding edgeList_def in_concat_keyed by (cases e) (simp add: image_iff, blast)

lemma in_predList_iff:
  "(e \<in> set (predList g)) =
     (\<exists>lm us. (dst e, lm) \<in> set (predMap g) \<and> (label e, us) \<in> set lm \<and> src e \<in> set us)"
  unfolding predList_def in_concat_keyed by (cases e) (simp add: image_iff, blast)

lemma edges_subset_edgeList: "edges g \<subseteq> set (edgeList g)"
proof
  fix e assume "e \<in> edges g"
  then have "dst e \<in> set (lookup2 (succMap g) (src e) (label e))"
    by (simp add: edges_def hasEdge_def)
  then obtain lm ws where "map_of (succMap g) (src e) = Some lm" "map_of lm (label e) = Some ws"
    "dst e \<in> set ws"
    using in_lookup2D by blast
  then show "e \<in> set (edgeList g)"
    unfolding in_edgeList_iff by (blast dest: map_of_SomeD)
qed

lemma predEdges_subset_predList: "predEdges g \<subseteq> set (predList g)"
proof
  fix e assume "e \<in> predEdges g"
  then have "src e \<in> set (lookup2 (predMap g) (dst e) (label e))"
    by (simp add: predEdges_def hasPred_def)
  then obtain lm ws where "map_of (predMap g) (dst e) = Some lm" "map_of lm (label e) = Some ws"
    "src e \<in> set ws"
    using in_lookup2D by blast
  then show "e \<in> set (predList g)"
    unfolding in_predList_iff by (blast dest: map_of_SomeD)
qed

lemma edgeList_subset_edges:
  assumes "wfMap (succMap g)"
  shows "set (edgeList g) \<subseteq> edges g"
proof
  fix e assume "e \<in> set (edgeList g)"
  then obtain lm vs where m: "(src e, lm) \<in> set (succMap g)" "(label e, vs) \<in> set lm"
    "dst e \<in> set vs"
    unfolding in_edgeList_iff by blast
  have d: "distinct (map fst (succMap g))" "distinct (map fst lm)"
    using assms m(1) by (auto simp: wfMap_def)
  have "map_of (succMap g) (src e) = Some lm" "map_of lm (label e) = Some vs"
    using d m by simp_all
  then show "e \<in> edges g"
    using m(3) by (simp add: edges_def hasEdge_def lookup2_def)
qed

lemma distinct_concat_keyed:
  assumes "distinct (map fst m)"
    and "\<And>k x. (k, x) \<in> set m \<Longrightarrow> distinct (f k x)"
    and "\<And>k x e. e \<in> set (f k x) \<Longrightarrow> key e = k"
  shows "distinct (concat (map (\<lambda>(k, x). f k x) m))"
  using assms(1,2)
proof (induction m)
  case Nil
  show ?case by simp
next
  case (Cons p m)
  obtain k x where p: "p = (k, x)" by (cases p)
  have "set (f k x) \<inter> set (concat (map (\<lambda>(k, x). f k x) m)) = {}"
  proof (rule ccontr)
    assume "set (f k x) \<inter> set (concat (map (\<lambda>(k, x). f k x) m)) \<noteq> {}"
    then obtain e k' x' where "e \<in> set (f k x)" "(k', x') \<in> set m" "e \<in> set (f k' x')"
      by auto
    then have "key e = k" "key e = k'" "k' \<in> fst ` set m"
      using assms(3) by (blast, blast, force)
    then show False using Cons.prems(1) p by auto
  qed
  then show ?case
    using Cons p by simp
qed

lemma distinct_edgeList:
  assumes "wfMap (succMap g)"
  shows "distinct (edgeList g)"
  unfolding edgeList_def
proof (rule distinct_concat_keyed [where key = src])
  show "distinct (map fst (succMap g))"
    using assms by (simp add: wfMap_def)
next
  fix u lm e
  assume "e \<in> set (concat (map (\<lambda>(l, vs). map (\<lambda>v. CFLREdge u v l) vs) lm))"
  then show "src e = u" by auto
next
  fix u lm assume ulm: "(u, lm) \<in> set (succMap g)"
  show "distinct (concat (map (\<lambda>(l, vs). map (\<lambda>v. CFLREdge u v l) vs) lm))"
  proof (rule distinct_concat_keyed [where key = label])
    show "distinct (map fst lm)"
      using assms ulm by (auto simp: wfMap_def)
  next
    fix l vs e assume "e \<in> set (map (\<lambda>v. CFLREdge u v l) vs)"
    then show "label e = l" by auto
  next
    fix l vs assume "(l, vs) \<in> set lm"
    then have "distinct vs"
      using assms ulm by (auto simp: wfMap_def)
    then show "distinct (map (\<lambda>v. CFLREdge u v l) vs)"
      by (simp add: distinct_map inj_on_def)
  qed
qed

lemma wfGraph_edgeList: "wfGraph g \<Longrightarrow> set (edgeList g) = edges g"
  using edges_subset_edgeList edgeList_subset_edges by (auto simp: wfGraph_def)

lemma wfGraph_consistent:
  assumes "wfGraph g"
  shows "predEdges g = edges g"
proof
  show "predEdges g \<subseteq> edges g"
    using predEdges_subset_predList [of g] assms by (auto simp: wfGraph_def edges_def)
  show "edges g \<subseteq> predEdges g"
    using edges_subset_edgeList [of g] assms by (auto simp: wfGraph_def predEdges_def)
qed

lemma finite_edges: "finite (edges g)"
  by (rule finite_subset [OF edges_subset_edgeList]) simp

section \<open>Derivable edges\<close>

text \<open>
  The edges that the solver can derive from an initial edge set \<open>G0\<close>: the grammar, and
  the inverse of every \<open>PT\<close> and \<open>Copy\<close> edge that is not an initial edge.
\<close>

inductive_set derivable :: "CFLREdge set \<Rightarrow> CFLREdge set" for G0 :: "CFLREdge set" where
  d_init: "e \<in> G0 \<Longrightarrow> e \<in> derivable G0"
| d_unary: "CFLREdge u v AddrBar \<in> derivable G0 \<Longrightarrow> CFLREdge u v PT \<in> derivable G0"
| d_binary: "CFLREdge u v l1 \<in> derivable G0 \<Longrightarrow> CFLREdge v w l2 \<in> derivable G0 \<Longrightarrow>
     production l1 l2 = Some l3 \<Longrightarrow> CFLREdge u w l3 \<in> derivable G0"
| d_symPT: "CFLREdge u v PT \<in> derivable G0 \<Longrightarrow> CFLREdge u v PT \<notin> G0 \<Longrightarrow>
     CFLREdge v u PTBar \<in> derivable G0"
| d_symCopy: "CFLREdge u v Copy \<in> derivable G0 \<Longrightarrow> CFLREdge u v Copy \<notin> G0 \<Longrightarrow>
     CFLREdge v u CopyBar \<in> derivable G0"

definition nodes :: "CFLREdge set \<Rightarrow> nat set" where
  "nodes G = src ` G \<union> dst ` G"

definition universe :: "nat set \<Rightarrow> CFLREdge set" where
  "universe N = {e. src e \<in> N \<and> dst e \<in> N}"

lemma derivable_universe: "e \<in> derivable G0 \<Longrightarrow> e \<in> universe (nodes G0)"
  by (induction rule: derivable.induct) (auto simp: universe_def nodes_def)

lemma UNIV_EdgeLabel:
  "(UNIV :: EdgeLabel set) = {Addr, AddrBar, Copy, CopyBar, Store, Load, PT, PTBar, PV, VP}"
proof -
  have "l \<in> {Addr, AddrBar, Copy, CopyBar, Store, Load, PT, PTBar, PV, VP}" for l
    by (cases l) simp_all
  then show ?thesis by blast
qed

lemma card_EdgeLabel: "card (UNIV :: EdgeLabel set) = 10"
  by (simp add: UNIV_EdgeLabel)

lemma universe_image:
  "universe N = (\<lambda>(u, v, l). CFLREdge u v l) ` (N \<times> N \<times> UNIV)"
proof (rule set_eqI)
  fix e show "(e \<in> universe N) = (e \<in> (\<lambda>(u, v, l). CFLREdge u v l) ` (N \<times> N \<times> UNIV))"
    by (cases e) (auto simp: universe_def image_iff)
qed

lemma finite_universe: "finite N \<Longrightarrow> finite (universe N)"
  by (simp add: universe_image UNIV_EdgeLabel)

lemma card_universe: "card (universe N) = 10 * (card N)\<^sup>2"
proof -
  have "inj_on (\<lambda>(u, v, l). CFLREdge u v l) (N \<times> N \<times> UNIV)"
    by (auto simp: inj_on_def)
  then have "card (universe N) = card (N \<times> N \<times> (UNIV :: EdgeLabel set))"
    by (simp add: universe_image card_image)
  then show ?thesis
    by (simp add: card_cartesian_product card_EdgeLabel power2_eq_square)
qed

lemma finite_nodes: "finite G \<Longrightarrow> finite (nodes G)"
  by (simp add: nodes_def)

section \<open>The loop invariant\<close>

text \<open>Every \<open>PT\<close> and \<open>Copy\<close> edge of \<open>E\<close> that is not an initial edge has its inverse
  in \<open>E\<close>.\<close>

definition symNew :: "CFLREdge set \<Rightarrow> CFLREdge set \<Rightarrow> bool" where
  "symNew G0 E =
     ((\<forall>u v. CFLREdge u v PT \<in> E \<and> CFLREdge u v PT \<notin> G0 \<longrightarrow> CFLREdge v u PTBar \<in> E) \<and>
      (\<forall>u v. CFLREdge u v Copy \<in> E \<and> CFLREdge u v Copy \<notin> G0 \<longrightarrow> CFLREdge v u CopyBar \<in> E))"

text \<open>Every production whose operands are in \<open>A\<close> has its result in \<open>E\<close>.\<close>

definition closedOn :: "CFLREdge set \<Rightarrow> CFLREdge set \<Rightarrow> bool" where
  "closedOn A E =
     ((\<forall>u v. CFLREdge u v AddrBar \<in> A \<longrightarrow> CFLREdge u v PT \<in> E) \<and>
      (\<forall>u v w l1 l2 l3. CFLREdge u v l1 \<in> A \<and> CFLREdge v w l2 \<in> A \<and>
          production l1 l2 = Some l3 \<longrightarrow> CFLREdge u w l3 \<in> E))"

definition solverInv :: "CFLREdge set \<Rightarrow> CFLR \<Rightarrow> bool" where
  "solverInv G0 s =
     (G0 \<subseteq> edges (graph s) \<and> edges (graph s) \<subseteq> derivable G0 \<and>
      predEdges (graph s) = edges (graph s) \<and>
      distinct (pushLog s) \<and> set (pushLog s) = edges (graph s) \<and>
      set (workList s) \<subseteq> edges (graph s) \<and> length (workList s) \<le> length (pushLog s) \<and>
      closedOn (edges (graph s) - set (workList s)) (edges (graph s)) \<and>
      symNew G0 (edges (graph s)))"

lemma reach_consistent:
  assumes "reach d e s t" and "predEdges (graph s) = edges (graph s)"
  shows "predEdges (graph t) = edges (graph t)"
  using reach_log [OF assms(1)] assms(2) by auto

lemma solverCall_derivable:
  assumes "solverCall e g a b l" and "e \<in> derivable G0" and "edges g \<subseteq> derivable G0"
    and "predEdges g = edges g"
  shows "CFLREdge a b l \<in> derivable G0"
proof -
  have e: "CFLREdge (src e) (dst e) (label e) \<in> derivable G0"
    using assms(2) by simp
  consider (unary) "label e = AddrBar" "a = src e" "b = dst e" "l = PT"
    | (right) l2 where "a = src e" "hasEdge g (dst e) b l2" "production (label e) l2 = Some l"
    | (left) l1 where "b = dst e" "hasPred g a (src e) l1" "production l1 (label e) = Some l"
    using assms(1) unfolding solverCall_def by blast
  then show ?thesis
  proof cases
    case unary
    then show ?thesis using e by (auto intro: d_unary)
  next
    case right
    have "CFLREdge (dst e) b l2 \<in> derivable G0"
      using right(2) assms(3) by (auto simp: edges_iff [symmetric])
    then show ?thesis
      using d_binary [OF e _ right(3)] right(1) by simp
  next
    case left
    have "CFLREdge a (src e) l1 \<in> predEdges g"
      using left(2) by (simp add: predEdges_iff)
    then have "CFLREdge a (src e) l1 \<in> derivable G0"
      using assms(3,4) by auto
    then show ?thesis
      using d_binary [OF _ e left(3)] left(1) by simp
  qed
qed

lemma newEdges_derivable:
  assumes "CFLREdge a b l \<in> derivable G0" and "G0 \<subseteq> edges g"
  shows "set (newEdges g a b l) \<subseteq> derivable G0"
proof
  fix x assume x: "x \<in> set (newEdges g a b l)"
  then have new: "\<not> hasEdge g a b l"
    by (auto simp: newEdges_def split: if_splits)
  then have notin: "CFLREdge a b l \<notin> G0"
    using assms(2) by (auto simp: edges_iff [symmetric])
  from newEdges_cases [OF x] show "x \<in> derivable G0"
    using assms(1) notin by (auto intro: d_symPT d_symCopy)
qed

lemma reach_sound:
  assumes "reach d e s t" and "e \<in> derivable G0" and "G0 \<subseteq> edges (graph s)"
    and "edges (graph s) \<subseteq> derivable G0" and "predEdges (graph s) = edges (graph s)"
  shows "edges (graph t) \<subseteq> derivable G0"
  using assms(1)
proof (induction rule: reach.induct)
  case reach_refl
  show ?case by (rule assms(4))
next
  case (reach_call t a b l)
  have "predEdges (graph t) = edges (graph t)"
    using reach_call.hyps(1) assms(5) by (rule reach_consistent)
  then have "CFLREdge a b l \<in> derivable G0"
    using solverCall_derivable [OF reach_call.hyps(2) assms(2) reach_call.IH] by simp
  moreover have "G0 \<subseteq> edges (graph t)"
    using assms(3) reach_mono [OF reach_call.hyps(1)] by blast
  ultimately have "set (newEdges (graph t) a b l) \<subseteq> derivable G0"
    by (rule newEdges_derivable)
  then show ?case
    using reach_call.IH by (simp add: addEdge_edges)
qed

lemma addEdge_symNew:
  assumes "symNew G0 (edges (graph s))"
  shows "symNew G0 (edges (graph (addEdge d a b l s)))"
  using assms unfolding symNew_def addEdge_edges newEdges_def
  by (auto simp: edges_iff)

lemma reach_symNew:
  "reach d e s t \<Longrightarrow> symNew G0 (edges (graph s)) \<Longrightarrow> symNew G0 (edges (graph t))"
  by (induction rule: reach.induct) (auto intro: addEdge_symNew)

lemma process_closed:
  assumes wl: "workList s = e # rest"
    and cons: "predEdges (graph s) = edges (graph s)"
    and sub: "set (workList s) \<subseteq> edges (graph s)"
    and cl: "closedOn (edges (graph s) - set (workList s)) (edges (graph s))"
    and t_def: "t = process d e (s\<lparr>workList := rest\<rparr>)"
  shows "closedOn (edges (graph t) - set (workList t)) (edges (graph t))"
proof -
  let ?s0 = "s\<lparr>workList := rest\<rparr>"
  have r: "reach d e ?s0 t"
    unfolding t_def by (rule reach_process)
  obtain new where new: "workList t = pushAll d new rest"
    "edges (graph t) = edges (graph s) \<union> set new"
    using reach_log [OF r] by auto
  have mono: "edges (graph s) \<subseteq> edges (graph t)"
    using new(2) by blast
  have old: "x \<in> edges (graph s)" "x \<notin> set rest"
    if "x \<in> edges (graph t) - set (workList t)" for x
    using that new by auto
  have ein: "e \<in> edges (graph s)"
    using wl sub by simp
  have unary: "CFLREdge u v PT \<in> edges (graph t)"
    if a: "CFLREdge u v AddrBar \<in> edges (graph t) - set (workList t)" for u v
  proof (cases "CFLREdge u v AddrBar = e")
    case True
    then have "label e = AddrBar" "src e = u" "dst e = v" by auto
    then show ?thesis
      using process_complete_unary [of e d ?s0] by (simp add: t_def edges_iff)
  next
    case False
    then have "CFLREdge u v AddrBar \<in> edges (graph s) - set (workList s)"
      using old [OF a] wl by simp
    then have "CFLREdge u v PT \<in> edges (graph s)"
      using cl unfolding closedOn_def by blast
    then show ?thesis using mono by blast
  qed
  have binary: "CFLREdge u w l3 \<in> edges (graph t)"
    if a: "CFLREdge u v l1 \<in> edges (graph t) - set (workList t)"
      and b: "CFLREdge v w l2 \<in> edges (graph t) - set (workList t)"
      and p: "production l1 l2 = Some l3" for u v w l1 l2 l3
  proof -
    consider (first) "CFLREdge u v l1 = e"
      | (second) "CFLREdge v w l2 = e"
      | (neither) "CFLREdge u v l1 \<noteq> e" "CFLREdge v w l2 \<noteq> e"
      by blast
    then show ?thesis
    proof cases
      case first
      then have e: "label e = l1" "src e = u" "dst e = v" by auto
      have "hasEdge (graph ?s0) (dst e) w l2"
        using old(1) [OF b] e by (simp add: edges_iff)
      then have "hasEdge (graph t) (src e) w l3"
        unfolding t_def using p e(1) by (intro process_complete_right) auto
      then show ?thesis using e by (simp add: edges_iff)
    next
      case second
      then have e: "label e = l2" "src e = v" "dst e = w" by auto
      have "CFLREdge u v l1 \<in> predEdges (graph s)"
        using old(1) [OF a] cons by simp
      then have "hasPred (graph ?s0) u (src e) l1"
        using e by (simp add: predEdges_iff)
      then have "hasEdge (graph t) u (dst e) l3"
        unfolding t_def using p e(1) by (intro process_complete_left) auto
      then show ?thesis using e by (simp add: edges_iff)
    next
      case neither
      then have "CFLREdge u v l1 \<in> edges (graph s) - set (workList s)"
        "CFLREdge v w l2 \<in> edges (graph s) - set (workList s)"
        using old [OF a] old [OF b] wl by simp_all
      then have "CFLREdge u w l3 \<in> edges (graph s)"
        using cl p unfolding closedOn_def by blast
      then show ?thesis using mono by blast
    qed
  qed
  show ?thesis
    unfolding closedOn_def using unary binary by blast
qed

lemma step_Nil: "workList s = [] \<Longrightarrow> step d s = s"
  by (simp add: step_def)

lemma step_Cons: "workList s = e # rest \<Longrightarrow> step d s = process d e (s\<lparr>workList := rest\<rparr>)"
  by (simp add: step_def)

lemma solverInv_step:
  assumes "solverInv G0 s"
  shows "solverInv G0 (step d s)"
proof (cases "workList s")
  case Nil
  then show ?thesis using assms by (simp add: step_Nil)
next
  case (Cons e rest)
  let ?s0 = "s\<lparr>workList := rest\<rparr>"
  let ?t = "process d e ?s0"
  have inv: "G0 \<subseteq> edges (graph s)" "edges (graph s) \<subseteq> derivable G0"
    "predEdges (graph s) = edges (graph s)" "distinct (pushLog s)"
    "set (pushLog s) = edges (graph s)" "set (workList s) \<subseteq> edges (graph s)"
    "length (workList s) \<le> length (pushLog s)"
    "closedOn (edges (graph s) - set (workList s)) (edges (graph s))"
    "symNew G0 (edges (graph s))"
    using assms by (simp_all add: solverInv_def)
  have r: "reach d e ?s0 ?t"
    by (rule reach_process)
  obtain new where new: "pushLog ?t = pushLog s @ new" "workList ?t = pushAll d new rest"
    "edges (graph ?t) = edges (graph s) \<union> set new"
    "predEdges (graph ?t) = predEdges (graph s) \<union> set new"
    "distinct new" "set new \<inter> edges (graph s) = {}"
    using reach_log [OF r] by auto
  have ed: "e \<in> derivable G0"
    using inv(2,6) Cons by auto
  have 1: "G0 \<subseteq> edges (graph ?t)"
    using inv(1) new(3) by blast
  have 2: "edges (graph ?t) \<subseteq> derivable G0"
    using reach_sound [OF r ed] inv(1,2,3) by simp
  have 3: "predEdges (graph ?t) = edges (graph ?t)"
    using new(3,4) inv(3) by simp
  have 4: "distinct (pushLog ?t)"
    using new(1,5,6) inv(4,5) by auto
  have 5: "set (pushLog ?t) = edges (graph ?t)"
    using new(1,3) inv(5) by simp
  have 6: "set (workList ?t) \<subseteq> edges (graph ?t)"
    using new(2,3) inv(6) Cons by auto
  have 7: "length (workList ?t) \<le> length (pushLog ?t)"
    using new(1,2) inv(7) Cons by simp
  have 8: "closedOn (edges (graph ?t) - set (workList ?t)) (edges (graph ?t))"
    using process_closed [OF Cons inv(3,6,8) refl] .
  have 9: "symNew G0 (edges (graph ?t))"
    using reach_symNew [OF r] inv(9) by simp
  show ?thesis
    unfolding step_Cons [OF Cons] solverInv_def using 1 2 3 4 5 6 7 8 9 by blast
qed

lemma solverInv_seed:
  assumes "wfGraph g"
  shows "solverInv (edges g) (seedWorkList d (newCFLR g))"
proof -
  have s: "seedWorkList d (newCFLR g) =
      \<lparr>graph = g, workList = pushAll d (edgeList g) [], pushLog = edgeList g\<rparr>"
    by (simp add: seedWorkList_eq newCFLR_def pushList_def)
  have "wfMap (succMap g)"
    using assms by (simp add: wfGraph_def)
  then have "distinct (edgeList g)"
    by (rule distinct_edgeList)
  moreover have "set (edgeList g) = edges g"
    using assms by (rule wfGraph_edgeList)
  moreover have "predEdges g = edges g"
    using assms by (rule wfGraph_consistent)
  ultimately show ?thesis
    unfolding s solverInv_def
    by (auto simp: closedOn_def symNew_def intro: d_init)
qed

lemma solverInv_final:
  assumes "solverInv G0 s" and "workList s = []"
  shows "edges (graph s) = derivable G0"
proof
  show "edges (graph s) \<subseteq> derivable G0"
    using assms(1) by (simp add: solverInv_def)
  have cl: "closedOn (edges (graph s)) (edges (graph s))"
    and sy: "symNew G0 (edges (graph s))" and init: "G0 \<subseteq> edges (graph s)"
    using assms by (simp_all add: solverInv_def)
  show "derivable G0 \<subseteq> edges (graph s)"
  proof
    fix e assume "e \<in> derivable G0"
    then show "e \<in> edges (graph s)"
    proof (induction rule: derivable.induct)
      case (d_init e)
      then show ?case using init by blast
    next
      case (d_unary u v)
      then show ?case using cl unfolding closedOn_def by blast
    next
      case (d_binary u v l1 w l2 l3)
      then show ?case using cl unfolding closedOn_def by blast
    next
      case (d_symPT u v)
      then show ?case using sy unfolding symNew_def by blast
    next
      case (d_symCopy u v)
      then show ?case using sy unfolding symNew_def by blast
    qed
  qed
qed

section \<open>Termination and the result of the solver\<close>

text \<open>The state after \<open>k\<close> iterations of the main loop on the graph \<open>g\<close>.\<close>

definition stateAfter :: "Discipline \<Rightarrow> CFLRGraph \<Rightarrow> nat \<Rightarrow> CFLR" where
  "stateAfter d g k = (step d ^^ k) (seedWorkList d (newCFLR g))"

lemma mainLoop_unfold:
  "mainLoop d s = (if workList s = [] then Some s else mainLoop d (step d s))"
  by (subst mainLoop.simps) (simp add: step_def split: list.splits)

lemma mainLoop_iterate:
  assumes "mainLoop d s = Some s'"
  shows "\<exists>k. s' = (step d ^^ k) s \<and> workList s' = []"
proof (rule mainLoop.raw_induct
    [where P = "\<lambda>d s s'. \<exists>k. s' = (step d ^^ k) s \<and> workList s' = []", OF _ assms])
  fix loop :: "Discipline \<Rightarrow> CFLR \<Rightarrow> CFLR option" and d s s'
  assume IH: "\<And>d s y. loop d s = Some y \<Longrightarrow> \<exists>k. y = (step d ^^ k) s \<and> workList y = []"
    and eq: "(case workList s of [] \<Rightarrow> Some s
              | e # rest \<Rightarrow> loop d (process d e (s\<lparr>workList := rest\<rparr>))) = Some s'"
  show "\<exists>k. s' = (step d ^^ k) s \<and> workList s' = []"
  proof (cases "workList s")
    case Nil
    then have "s' = (step d ^^ 0) s \<and> workList s' = []"
      using eq by auto
    then show ?thesis by blast
  next
    case (Cons e rest)
    then have "loop d (step d s) = Some s'"
      using eq by (simp add: step_Cons)
    then obtain k where k: "s' = (step d ^^ k) (step d s)" "workList s' = []"
      using IH by blast
    have "(step d ^^ Suc k) s = (step d ^^ k) (step d s)"
      by (simp add: funpow_swap1)
    then have "s' = (step d ^^ Suc k) s \<and> workList s' = []"
      using k by simp
    then show ?thesis by blast
  qed
qed

lemma solve_iterate:
  "solve d (newCFLR g) = Some s' \<Longrightarrow> \<exists>k. s' = stateAfter d g k \<and> workList s' = []"
  unfolding solve_def stateAfter_def by (rule mainLoop_iterate)

lemma solverInv_funpow: "solverInv G0 s \<Longrightarrow> solverInv G0 ((step d ^^ k) s)"
  by (induction k) (auto intro: solverInv_step)

lemma solverInv_bound:
  assumes "solverInv G0 s" and "finite G0"
  shows "length (pushLog s) \<le> card (universe (nodes G0))"
proof -
  have "set (pushLog s) \<subseteq> universe (nodes G0)"
    using assms(1) derivable_universe by (auto simp: solverInv_def)
  then have "card (set (pushLog s)) \<le> card (universe (nodes G0))"
    using assms(2) by (intro card_mono finite_universe finite_nodes)
  moreover have "distinct (pushLog s)"
    using assms(1) by (simp add: solverInv_def)
  ultimately show ?thesis
    by (simp add: distinct_card)
qed

lemma step_pops:
  assumes "solverInv G0 s" and "workList s \<noteq> []"
  shows "length (pushLog (step d s)) - length (workList (step d s)) =
           Suc (length (pushLog s) - length (workList s))"
proof -
  obtain e rest where wl: "workList s = e # rest"
    using assms(2) by (cases "workList s") auto
  obtain new where "pushLog (step d s) = pushLog s @ new"
    "workList (step d s) = pushAll d new rest"
    using reach_log [OF reach_process, of d e "s\<lparr>workList := rest\<rparr>"]
    unfolding step_Cons [OF wl] by auto
  moreover have "length (workList s) \<le> length (pushLog s)"
    using assms(1) by (simp add: solverInv_def)
  ultimately show ?thesis
    using wl by simp
qed

lemma mainLoop_terminates:
  assumes "finite G0"
  shows "solverInv G0 s \<Longrightarrow>
     \<exists>k. workList ((step d ^^ k) s) = [] \<and> mainLoop d s = Some ((step d ^^ k) s) \<and>
         k + (length (pushLog s) - length (workList s)) = length (pushLog ((step d ^^ k) s))"
proof (induction "card (universe (nodes G0)) - (length (pushLog s) - length (workList s))"
    arbitrary: s rule: less_induct)
  case less
  show ?case
  proof (cases "workList s = []")
    case True
    then have "workList ((step d ^^ 0) s) = [] \<and> mainLoop d s = Some ((step d ^^ 0) s) \<and>
        0 + (length (pushLog s) - length (workList s)) = length (pushLog ((step d ^^ 0) s))"
      using mainLoop_unfold [of d s] by simp
    then show ?thesis by blast
  next
    case False
    let ?t = "step d s"
    have inv: "solverInv G0 ?t"
      using less.prems by (rule solverInv_step)
    have pops: "length (pushLog ?t) - length (workList ?t) =
        Suc (length (pushLog s) - length (workList s))"
      using less.prems False by (rule step_pops)
    have "length (pushLog ?t) \<le> card (universe (nodes G0))"
      using inv assms by (rule solverInv_bound)
    then have "card (universe (nodes G0)) - (length (pushLog ?t) - length (workList ?t))
        < card (universe (nodes G0)) - (length (pushLog s) - length (workList s))"
      using pops by linarith
    from less.hyps [OF this inv]
    obtain k where k: "workList ((step d ^^ k) ?t) = []"
      "mainLoop d ?t = Some ((step d ^^ k) ?t)"
      "k + (length (pushLog ?t) - length (workList ?t)) = length (pushLog ((step d ^^ k) ?t))"
      by blast
    have f: "(step d ^^ Suc k) s = (step d ^^ k) ?t"
      by (simp add: funpow_swap1)
    have "workList ((step d ^^ Suc k) s) = [] \<and>
        mainLoop d s = Some ((step d ^^ Suc k) s) \<and>
        Suc k + (length (pushLog s) - length (workList s)) =
          length (pushLog ((step d ^^ Suc k) s))"
      unfolding f using k pops False mainLoop_unfold [of d s] by simp
    then show ?thesis by blast
  qed
qed

lemma seed_pops:
  "length (pushLog (seedWorkList d (newCFLR g))) = length (workList (seedWorkList d (newCFLR g)))"
  by (simp add: seedWorkList_eq pushList_def newCFLR_def)

lemma graph_seed [simp]: "graph (seedWorkList d (newCFLR g)) = g"
  by (simp add: seedWorkList_eq pushList_def newCFLR_def)

lemma solverInv_stateAfter: "wfGraph g \<Longrightarrow> solverInv (edges g) (stateAfter d g k)"
  unfolding stateAfter_def by (intro solverInv_funpow solverInv_seed)

text \<open>The solver returns; its result is the state after as many iterations as there were
  pushes, and its edge set is the set of derivable edges.\<close>

lemma solve_result:
  assumes "wfGraph g"
  shows "\<exists>s'. solve d (newCFLR g) = Some s' \<and> s' = stateAfter d g (length (pushLog s')) \<and>
           workList s' = [] \<and> solverInv (edges g) s' \<and>
           edges (graph s') = derivable (edges g)"
proof -
  let ?s = "seedWorkList d (newCFLR g)"
  have inv: "solverInv (edges g) ?s"
    using assms by (rule solverInv_seed)
  obtain k where k: "workList ((step d ^^ k) ?s) = []"
    "mainLoop d ?s = Some ((step d ^^ k) ?s)"
    "k + (length (pushLog ?s) - length (workList ?s)) = length (pushLog ((step d ^^ k) ?s))"
    using mainLoop_terminates [OF finite_edges inv] by blast
  let ?r = "(step d ^^ k) ?s"
  have len: "k = length (pushLog ?r)"
    using k(3) by (simp add: seed_pops)
  have invr: "solverInv (edges g) ?r"
    using inv by (rule solverInv_funpow)
  have "solve d (newCFLR g) = Some ?r"
    using k(2) by (simp add: solve_def)
  moreover have "?r = stateAfter d g (length (pushLog ?r))"
    using len by (simp add: stateAfter_def)
  moreover have "edges (graph ?r) = derivable (edges g)"
    using invr k(1) by (rule solverInv_final)
  ultimately show ?thesis
    using k(1) invr by blast
qed

section \<open>Concrete graphs\<close>

lemma edges_emptyGraph: "edges emptyGraph = {}"
  by (simp add: edges_def emptyGraph_def hasEdge_def lookup2_def)

lemma edges_fold_graphAddEdge:
  "edges (fold (\<lambda>e g. graphAddEdge g (src e) (dst e) (label e)) es g) = edges g \<union> set es"
  by (induction es arbitrary: g) (auto simp: edges_graphAddEdge)

lemma edges_buildGraph: "edges (buildGraph es) = set es"
  by (simp add: buildGraph_def edges_fold_graphAddEdge edges_emptyGraph)

text \<open>Scenario S6 of the specification with \<open>p = 0\<close>, \<open>o = 1\<close> and \<open>r = 2\<close>.\<close>

definition graphS6 :: CFLRGraph where
  "graphS6 = buildGraph [CFLREdge 0 1 AddrBar, CFLREdge 0 0 Store, CFLREdge 0 2 Load]"

lemma graphS6_eq:
  "graphS6 = \<lparr>succMap = [(0, [(AddrBar, [1]), (Store, [0]), (Load, [2])])],
              predMap = [(1, [(AddrBar, [0])]), (0, [(Store, [0])]), (2, [(Load, [0])])]\<rparr>"
  by (simp add: graphS6_def buildGraph_def emptyGraph_def graphAddEdge_def insert2_def)

lemma wfGraph_graphS6: "wfGraph graphS6"
  by (simp add: graphS6_eq wfGraph_def wfMap_def edgeList_def predList_def hasEdge_def
      hasPred_def lookup2_def)

lemmas eval_defs = solve_def newCFLR_def seedWorkList_def push_def mainLoop.simps process_def
  unaryRule_def matchRight_def matchLeft_def forEach_def addEdge_def hasEdge_def lookup2_def
  predsOf_def graphAddEdge_def insert2_def

lemma solve_FIFO_graphS6:
  "solve FIFO (newCFLR graphS6) = Some
     \<lparr>graph = \<lparr>succMap =
        [(0, [(AddrBar, [1]), (Store, [0]), (Load, [2]), (PT, [1]), (PV, [1]), (Copy, [2])]),
         (1, [(PTBar, [0, 2]), (VP, [2])]),
         (2, [(CopyBar, [0]), (PT, [1])])],
        predMap =
          [(1, [(AddrBar, [0]), (PT, [0, 2]), (PV, [0])]),
           (0, [(Store, [0]), (PTBar, [1]), (CopyBar, [2])]),
           (2, [(Load, [0]), (VP, [1]), (Copy, [0]), (PTBar, [1])])]\<rparr>,
      workList = [],
      pushLog =
       [CFLREdge 0 1 AddrBar, CFLREdge 0 0 Store, CFLREdge 0 2 Load,
        CFLREdge 0 1 PT, CFLREdge 1 0 PTBar, CFLREdge 0 1 PV,
        CFLREdge 1 2 VP, CFLREdge 0 2 Copy, CFLREdge 2 0 CopyBar,
        CFLREdge 2 1 PT, CFLREdge 1 2 PTBar]\<rparr>"
  by (simp add: graphS6_eq eval_defs)

lemma solve_LIFO_graphS6:
  "solve LIFO (newCFLR graphS6) = Some
     \<lparr>graph = \<lparr>succMap =
        [(0, [(AddrBar, [1]), (Store, [0]), (Load, [2]), (PT, [1]), (PV, [1]), (Copy, [2])]),
         (1, [(PTBar, [0, 2]), (VP, [2])]),
         (2, [(CopyBar, [0]), (PT, [1])])],
        predMap =
          [(1, [(AddrBar, [0]), (PT, [0, 2]), (PV, [0])]),
           (0, [(Store, [0]), (PTBar, [1]), (CopyBar, [2])]),
           (2, [(Load, [0]), (VP, [1]), (Copy, [0]), (PTBar, [1])])]\<rparr>,
      workList = [],
      pushLog =
       [CFLREdge 0 1 AddrBar, CFLREdge 0 0 Store, CFLREdge 0 2 Load,
        CFLREdge 0 1 PT, CFLREdge 1 0 PTBar, CFLREdge 1 2 VP,
        CFLREdge 0 1 PV, CFLREdge 0 2 Copy, CFLREdge 2 0 CopyBar,
        CFLREdge 2 1 PT, CFLREdge 1 2 PTBar]\<rparr>"
  by (simp add: graphS6_eq eval_defs)

text \<open>
  C7. On the graph with exactly the edges \<open>AddrBar(p,o)\<close>, \<open>Store(p,p)\<close> and
  \<open>Load(p,r)\<close>, the solver returns, under either work-list discipline, a graph that
  holds \<open>PT(p,o)\<close>, \<open>Copy(p,r)\<close> and \<open>PT(r,o)\<close>.
\<close>

theorem self_store_load:
  "edges graphS6 = {CFLREdge 0 1 AddrBar, CFLREdge 0 0 Store, CFLREdge 0 2 Load} \<and>
   (\<exists>s'. solve d (newCFLR graphS6) = Some s' \<and>
      hasEdge (graph s') 0 1 PT \<and> hasEdge (graph s') 0 2 Copy \<and> hasEdge (graph s') 2 1 PT)"
proof
  show "edges graphS6 = {CFLREdge 0 1 AddrBar, CFLREdge 0 0 Store, CFLREdge 0 2 Load}"
    by (simp add: graphS6_def edges_buildGraph)
  show "\<exists>s'. solve d (newCFLR graphS6) = Some s' \<and>
      hasEdge (graph s') 0 1 PT \<and> hasEdge (graph s') 0 2 Copy \<and> hasEdge (graph s') 2 1 PT"
  proof (cases d)
    case FIFO
    show ?thesis
      unfolding FIFO solve_FIFO_graphS6 by (simp add: hasEdge_def lookup2_def)
  next
    case LIFO
    show ?thesis
      unfolding LIFO solve_LIFO_graphS6 by (simp add: hasEdge_def lookup2_def)
  qed
qed

text \<open>
  C8. The insertion helper leaves the whole solver state unchanged when the edge is
  already in the graph. When the edge \<open>(u, v, l)\<close> is new, the helper inserts it and pushes
  it; it also inserts and pushes \<open>(v, u, PTBar)\<close> only when \<open>l = PT\<close> and that edge is
  absent, and \<open>(v, u, CopyBar)\<close> only when \<open>l = Copy\<close> and that edge is absent. For every
  other label exactly the one edge is inserted and pushed.
\<close>

theorem addEdge_effect:
  "(hasEdge (graph s) u v l \<longrightarrow> addEdge d u v l s = s) \<and>
   (\<not> hasEdge (graph s) u v l \<longrightarrow>
      (let inverse =
         (if l = PT \<and> \<not> hasEdge (graph s) v u PTBar then [CFLREdge v u PTBar]
          else if l = Copy \<and> \<not> hasEdge (graph s) v u CopyBar then [CFLREdge v u CopyBar]
          else [])
       in edges (graph (addEdge d u v l s)) =
            edges (graph s) \<union> {CFLREdge u v l} \<union> set inverse \<and>
          pushLog (addEdge d u v l s) = pushLog s @ CFLREdge u v l # inverse \<and>
          workList (addEdge d u v l s) =
            (case d of FIFO \<Rightarrow> workList s @ CFLREdge u v l # inverse
             | LIFO \<Rightarrow> rev (CFLREdge u v l # inverse) @ workList s))) \<and>
   (\<not> hasEdge (graph s) u v l \<and> l \<noteq> PT \<and> l \<noteq> Copy \<longrightarrow>
      edges (graph (addEdge d u v l s)) = insert (CFLREdge u v l) (edges (graph s)) \<and>
      pushLog (addEdge d u v l s) = pushLog s @ [CFLREdge u v l])"
proof (intro conjI impI)
  assume "hasEdge (graph s) u v l"
  then show "addEdge d u v l s = s"
    by (simp add: addEdge_def)
next
  assume new: "\<not> hasEdge (graph s) u v l"
  have n: "newEdges (graph s) u v l = CFLREdge u v l #
      (if l = PT \<and> \<not> hasEdge (graph s) v u PTBar then [CFLREdge v u PTBar]
       else if l = Copy \<and> \<not> hasEdge (graph s) v u CopyBar then [CFLREdge v u CopyBar]
       else [])"
    using new by (simp add: newEdges_def)
  show "let inverse =
         (if l = PT \<and> \<not> hasEdge (graph s) v u PTBar then [CFLREdge v u PTBar]
          else if l = Copy \<and> \<not> hasEdge (graph s) v u CopyBar then [CFLREdge v u CopyBar]
          else [])
       in edges (graph (addEdge d u v l s)) =
            edges (graph s) \<union> {CFLREdge u v l} \<union> set inverse \<and>
          pushLog (addEdge d u v l s) = pushLog s @ CFLREdge u v l # inverse \<and>
          workList (addEdge d u v l s) =
            (case d of FIFO \<Rightarrow> workList s @ CFLREdge u v l # inverse
             | LIFO \<Rightarrow> rev (CFLREdge u v l # inverse) @ workList s)"
    unfolding Let_def addEdge_edges addEdge_pushLog addEdge_workList n
    by (simp add: pushAll_def split: Discipline.splits)
next
  assume a: "\<not> hasEdge (graph s) u v l \<and> l \<noteq> PT \<and> l \<noteq> Copy"
  then have n: "newEdges (graph s) u v l = [CFLREdge u v l]"
    by (simp add: newEdges_def)
  show "edges (graph (addEdge d u v l s)) = insert (CFLREdge u v l) (edges (graph s))"
    by (simp add: addEdge_edges n)
  show "pushLog (addEdge d u v l s) = pushLog s @ [CFLREdge u v l]"
    by (simp add: addEdge_pushLog n)
qed

theorem addEdge_effect_witness:
  "hasEdge (graph (newCFLR graphS6)) 0 1 AddrBar \<and>
   addEdge FIFO 0 1 AddrBar (newCFLR graphS6) = newCFLR graphS6 \<and>
   \<not> hasEdge (graph (newCFLR graphS6)) 0 1 PT \<and>
   pushLog (addEdge FIFO 0 1 PT (newCFLR graphS6)) = [CFLREdge 0 1 PT, CFLREdge 1 0 PTBar] \<and>
   \<not> hasEdge (graph (newCFLR graphS6)) 0 1 PV \<and>
   pushLog (addEdge FIFO 0 1 PV (newCFLR graphS6)) = [CFLREdge 0 1 PV]"
proof -
  have h: "hasEdge (graph (newCFLR graphS6)) 0 1 AddrBar"
    "\<not> hasEdge (graph (newCFLR graphS6)) 0 1 PT"
    "\<not> hasEdge (graph (newCFLR graphS6)) 1 0 PTBar"
    "\<not> hasEdge (graph (newCFLR graphS6)) 0 1 PV"
    by (simp_all add: graphS6_eq newCFLR_def hasEdge_def lookup2_def)
  have p: "pushLog (newCFLR graphS6) = []"
    by (simp add: newCFLR_def)
  show ?thesis
    using h p addEdge_effect [of "newCFLR graphS6" 0 1 AddrBar FIFO]
      addEdge_effect [of "newCFLR graphS6" 0 1 PT FIFO]
      addEdge_effect [of "newCFLR graphS6" 0 1 PV FIFO]
    by (simp add: Let_def)
qed

section \<open>Monotone growth\<close>

lemma step_mono: "edges (graph s) \<subseteq> edges (graph (step d s))"
proof (cases "workList s")
  case Nil
  then show ?thesis by (simp add: step_Nil)
next
  case (Cons e rest)
  show ?thesis
    using reach_mono [OF reach_process, of "s\<lparr>workList := rest\<rparr>" d e]
    by (simp add: step_Cons [OF Cons])
qed

lemma funpow_step_mono: "edges (graph ((step d ^^ j) s)) \<subseteq> edges (graph ((step d ^^ (j + i)) s))"
proof (induction i)
  case 0
  show ?case by simp
next
  case (Suc i)
  show ?case
    using Suc step_mono [of "(step d ^^ (j + i)) s" d] by auto
qed

lemma stateAfter_mono:
  assumes "j \<le> k"
  shows "edges (graph (stateAfter d g j)) \<subseteq> edges (graph (stateAfter d g k))"
  using funpow_step_mono [where d = d and j = j and s = "seedWorkList d (newCFLR g)" and i = "k - j"] assms
  by (simp add: stateAfter_def)

lemma stateAfter_0: "stateAfter d g 0 = seedWorkList d (newCFLR g)"
  by (simp add: stateAfter_def)

text \<open>
  C3. The edge set only grows: every call of the insertion helper and every iteration of
  the main loop keeps all edges that were present, the edge set after \<open>j\<close> iterations is
  contained in the edge set after any later iteration, and every graph that the solver
  returns holds every initial edge; on a well-formed graph the solver does return.
\<close>

theorem edge_set_grows:
  "edges (graph s) \<subseteq> edges (graph (addEdge d a b l s)) \<and>
   edges (graph s) \<subseteq> edges (graph (step d s)) \<and>
   (j \<le> k \<longrightarrow> edges (graph (stateAfter d g j)) \<subseteq> edges (graph (stateAfter d g k))) \<and>
   (\<forall>s'. solve d (newCFLR g) = Some s' \<longrightarrow> edges g \<subseteq> edges (graph s')) \<and>
   (wfGraph g \<longrightarrow> (\<exists>s'. solve d (newCFLR g) = Some s' \<and> edges g \<subseteq> edges (graph s')))"
proof (intro conjI impI allI)
  show "edges (graph s) \<subseteq> edges (graph (addEdge d a b l s))"
    by (rule addEdge_mono)
  show "edges (graph s) \<subseteq> edges (graph (step d s))"
    by (rule step_mono)
  show "edges (graph (stateAfter d g j)) \<subseteq> edges (graph (stateAfter d g k))" if "j \<le> k"
    using that by (rule stateAfter_mono)
  show "edges g \<subseteq> edges (graph s')" if ret: "solve d (newCFLR g) = Some s'" for s'
  proof -
    obtain k where "s' = stateAfter d g k"
      using solve_iterate [OF ret] by blast
    then show ?thesis
      using stateAfter_mono [of 0 k d g] by (simp add: stateAfter_0)
  qed
  show "\<exists>s'. solve d (newCFLR g) = Some s' \<and> edges g \<subseteq> edges (graph s')" if "wfGraph g"
    using solve_result [OF that, of d] by (auto simp: solverInv_def)
qed

theorem edge_set_grows_witness:
  "(1::nat) \<le> 2 \<and>
   edges (graph (stateAfter FIFO graphS6 1)) \<subseteq> edges (graph (stateAfter FIFO graphS6 2)) \<and>
   wfGraph graphS6 \<and>
   (\<exists>s'. solve FIFO (newCFLR graphS6) = Some s' \<and> edges graphS6 \<subseteq> edges (graph s'))"
  using edge_set_grows [where j = 1 and k = 2 and g = graphS6 and d = FIFO] wfGraph_graphS6
  by simp

section \<open>Symmetry of the points-to and copy relations\<close>

text \<open>The symmetry invariant of the specification (section 3): \<open>PT\<close> and \<open>PTBar\<close> edges
  come in pairs, and so do \<open>Copy\<close> and \<open>CopyBar\<close> edges.\<close>

definition symmetric :: "CFLREdge set \<Rightarrow> bool" where
  "symmetric E =
     ((\<forall>u v. (CFLREdge u v PT \<in> E) = (CFLREdge v u PTBar \<in> E)) \<and>
      (\<forall>u v. (CFLREdge u v Copy \<in> E) = (CFLREdge v u CopyBar \<in> E)))"

definition noPointsTo :: "CFLREdge set \<Rightarrow> bool" where
  "noPointsTo E = (\<forall>e \<in> E. label e \<noteq> PT \<and> label e \<noteq> PTBar)"

definition copyPaired :: "CFLREdge set \<Rightarrow> bool" where
  "copyPaired E = (\<forall>u v. (CFLREdge u v Copy \<in> E) = (CFLREdge v u CopyBar \<in> E))"

lemma solverCall_label: "solverCall e g a b l \<Longrightarrow> l \<in> {PT, PV, VP, Copy}"
  by (auto simp: solverCall_def dest: production_cases)

lemma addEdge_symmetric:
  assumes "symmetric (edges (graph s))" and "l \<in> {PT, PV, VP, Copy}"
  shows "symmetric (edges (graph (addEdge d a b l s)))"
proof -
  have pt: "hasEdge (graph s) u v PT = hasEdge (graph s) v u PTBar"
    and cp: "hasEdge (graph s) u v Copy = hasEdge (graph s) v u CopyBar" for u v
    using assms(1) by (simp_all add: symmetric_def edges_iff)
  show ?thesis
    using assms(2) unfolding symmetric_def addEdge_edges newEdges_def
    by (auto simp: edges_iff pt cp)
qed

lemma reach_symmetric:
  "reach d e s t \<Longrightarrow> symmetric (edges (graph s)) \<Longrightarrow> symmetric (edges (graph t))"
  by (induction rule: reach.induct) (auto intro: addEdge_symmetric dest: solverCall_label)

lemma step_symmetric:
  assumes "symmetric (edges (graph s))"
  shows "symmetric (edges (graph (step d s)))"
proof (cases "workList s")
  case Nil
  then show ?thesis using assms by (simp add: step_Nil)
next
  case (Cons e rest)
  show ?thesis
    using reach_symmetric [OF reach_process, of "s\<lparr>workList := rest\<rparr>" d e] assms
    by (simp add: step_Cons [OF Cons])
qed

lemma stateAfter_symmetric:
  assumes "symmetric (edges g)"
  shows "symmetric (edges (graph (stateAfter d g k)))"
proof (induction k)
  case 0
  show ?case using assms by (simp add: stateAfter_0)
next
  case (Suc k)
  then show ?case
    using step_symmetric [of "stateAfter d g k" d] by (simp add: stateAfter_def)
qed

lemma initial_symmetric: "noPointsTo E \<Longrightarrow> copyPaired E \<Longrightarrow> symmetric E"
  unfolding noPointsTo_def copyPaired_def symmetric_def by force

text \<open>
  C2. Assume that the initial graph has no \<open>PT\<close> and no \<open>PTBar\<close> edge and that its \<open>Copy\<close>
  and \<open>CopyBar\<close> edges come in pairs. Then the symmetry invariant holds after every
  iteration of the main loop and in every graph that the solver returns (and on a
  well-formed graph the solver does return). Every call of the
  insertion helper with one of the labels that the loop body passes to it
  (\<open>PT\<close>, \<open>PV\<close>, \<open>VP\<close>, \<open>Copy\<close>) preserves the invariant.
\<close>

theorem symmetry_maintained:
  assumes "noPointsTo (edges g)" and "copyPaired (edges g)"
  shows "(\<forall>s a b l. symmetric (edges (graph s)) \<and> l \<in> {PT, PV, VP, Copy} \<longrightarrow>
            symmetric (edges (graph (addEdge d a b l s)))) \<and>
         (\<forall>k. symmetric (edges (graph (stateAfter d g k)))) \<and>
         (\<forall>s'. solve d (newCFLR g) = Some s' \<longrightarrow> symmetric (edges (graph s'))) \<and>
         (wfGraph g \<longrightarrow> (\<exists>s'. solve d (newCFLR g) = Some s' \<and> symmetric (edges (graph s'))))"
proof (intro conjI allI impI)
  have init: "symmetric (edges g)"
    using assms by (rule initial_symmetric)
  show "symmetric (edges (graph (addEdge d a b l s)))"
    if "symmetric (edges (graph s)) \<and> l \<in> {PT, PV, VP, Copy}" for s a b l
    using that addEdge_symmetric by blast
  show "symmetric (edges (graph (stateAfter d g k)))" for k
    using init by (rule stateAfter_symmetric)
  show "symmetric (edges (graph s'))" if ret: "solve d (newCFLR g) = Some s'" for s'
  proof -
    obtain k where "s' = stateAfter d g k"
      using solve_iterate [OF ret] by blast
    then show ?thesis
      using init stateAfter_symmetric by blast
  qed
  show "\<exists>s'. solve d (newCFLR g) = Some s' \<and> symmetric (edges (graph s'))" if wf: "wfGraph g"
  proof -
    obtain s' where s': "solve d (newCFLR g) = Some s'"
      "s' = stateAfter d g (length (pushLog s'))"
      using solve_result [OF wf, of d] by blast
    have "symmetric (edges (graph (stateAfter d g (length (pushLog s')))))"
      using init by (rule stateAfter_symmetric)
    then show ?thesis using s' by auto
  qed
qed

text \<open>Scenario S1 of the specification with \<open>p = 0\<close>, \<open>a = 1\<close> and \<open>q = 2\<close>.\<close>

definition graphS1 :: CFLRGraph where
  "graphS1 = buildGraph [CFLREdge 0 1 AddrBar, CFLREdge 2 0 Copy, CFLREdge 0 2 CopyBar]"

lemma graphS1_eq:
  "graphS1 = \<lparr>succMap = [(0, [(AddrBar, [1]), (CopyBar, [2])]), (2, [(Copy, [0])])],
              predMap = [(1, [(AddrBar, [0])]), (0, [(Copy, [2])]), (2, [(CopyBar, [0])])]\<rparr>"
  by (simp add: graphS1_def buildGraph_def emptyGraph_def graphAddEdge_def insert2_def)

lemma wfGraph_graphS1: "wfGraph graphS1"
  by (simp add: graphS1_eq wfGraph_def wfMap_def edgeList_def predList_def hasEdge_def
      hasPred_def lookup2_def)

theorem symmetry_maintained_witness:
  "noPointsTo (edges graphS1) \<and> copyPaired (edges graphS1) \<and> wfGraph graphS1 \<and>
   (\<forall>k. symmetric (edges (graph (stateAfter FIFO graphS1 k)))) \<and>
   (\<exists>s'. solve FIFO (newCFLR graphS1) = Some s' \<and> symmetric (edges (graph s')))"
proof -
  have e: "edges graphS1 = {CFLREdge 0 1 AddrBar, CFLREdge 2 0 Copy, CFLREdge 0 2 CopyBar}"
    by (simp add: graphS1_def edges_buildGraph)
  have 1: "noPointsTo (edges graphS1)"
    by (simp add: e noPointsTo_def)
  have 2: "copyPaired (edges graphS1)"
    by (auto simp: e copyPaired_def)
  show ?thesis
    using symmetry_maintained [OF 1 2, of FIFO] 1 2 wfGraph_graphS1 by simp
qed

section \<open>Termination and the work list\<close>

lemma funpow_step_fixed: "workList s = [] \<Longrightarrow> (step d ^^ i) s = s"
  by (induction i) (simp_all add: step_Nil)

lemma pops_le:
  assumes "solverInv G0 s"
  shows "length (pushLog ((step d ^^ j) s)) - length (workList ((step d ^^ j) s))
           \<le> j + (length (pushLog s) - length (workList s))"
proof (induction j)
  case 0
  show ?case by simp
next
  case (Suc j)
  let ?t = "(step d ^^ j) s"
  have inv: "solverInv G0 ?t"
    using assms by (rule solverInv_funpow)
  show ?case
  proof (cases "workList ?t = []")
    case True
    then show ?thesis using Suc by (simp add: step_Nil)
  next
    case False
    show ?thesis
      using step_pops [OF inv False, of d] Suc by simp
  qed
qed

lemma stateAfter_add: "stateAfter d g (j + i) = (step d ^^ i) (stateAfter d g j)"
  by (simp add: stateAfter_def funpow_add add.commute)

lemma stateAfter_pops_le:
  assumes "wfGraph g"
  shows "length (pushLog (stateAfter d g j)) - length (workList (stateAfter d g j)) \<le> j"
  using pops_le [OF solverInv_seed [OF assms, of d], where d = d and j = j] seed_pops [of d g]
  by (simp add: stateAfter_def)

lemma no_early_exit:
  assumes "wfGraph g" and "k = length (pushLog (stateAfter d g k))" and "j < k"
  shows "workList (stateAfter d g j) \<noteq> []"
proof
  assume e: "workList (stateAfter d g j) = []"
  have "stateAfter d g k = stateAfter d g j"
    using stateAfter_add [of d g j "k - j"] funpow_step_fixed [OF e] assms(3) by simp
  then have "length (pushLog (stateAfter d g k)) \<le> j"
    using stateAfter_pops_le [OF assms(1), of d j] e by simp
  then show False
    using assms(2,3) by simp
qed

text \<open>
  C4. On every well-formed (hence finite) initial graph the solver returns. The main loop
  makes exactly \<open>k\<close> iterations, where \<open>k\<close> is the number of pushes of the whole run; no
  edge is pushed twice, so \<open>k\<close> is at most \<open>10 \<cdot> |V|\<^sup>2\<close>, the number of triples over the
  nodes of the initial graph and the ten labels.
\<close>

theorem solve_terminates:
  assumes "wfGraph g"
  shows "\<exists>k. solve d (newCFLR g) = Some (stateAfter d g k) \<and>
           workList (stateAfter d g k) = [] \<and>
           (\<forall>j<k. workList (stateAfter d g j) \<noteq> []) \<and>
           k = length (pushLog (stateAfter d g k)) \<and>
           distinct (pushLog (stateAfter d g k)) \<and>
           k \<le> 10 * (card (nodes (edges g)))\<^sup>2"
proof -
  obtain s' where s': "solve d (newCFLR g) = Some s'"
    "s' = stateAfter d g (length (pushLog s'))" "workList s' = []" "solverInv (edges g) s'"
    using solve_result [OF assms, of d] by blast
  define k where "k = length (pushLog s')"
  have eq: "stateAfter d g k = s'"
    using s'(2) by (simp add: k_def)
  have len: "k = length (pushLog (stateAfter d g k))"
    unfolding eq by (simp add: k_def)
  have "k \<le> card (universe (nodes (edges g)))"
    unfolding k_def using s'(4) finite_edges by (rule solverInv_bound)
  then have bound: "k \<le> 10 * (card (nodes (edges g)))\<^sup>2"
    by (simp add: card_universe)
  have "distinct (pushLog s')"
    using s'(4) by (simp add: solverInv_def)
  moreover have "\<forall>j<k. workList (stateAfter d g j) \<noteq> []"
    using no_early_exit [OF assms len] by blast
  ultimately show ?thesis
    using s'(1,3) len bound unfolding eq [symmetric] by blast
qed

theorem solve_terminates_witness:
  "wfGraph graphS6 \<and>
   (\<exists>k. solve LIFO (newCFLR graphS6) = Some (stateAfter LIFO graphS6 k) \<and>
      workList (stateAfter LIFO graphS6 k) = [] \<and>
      k = length (pushLog (stateAfter LIFO graphS6 k)) \<and>
      k \<le> 10 * (card (nodes (edges graphS6)))\<^sup>2)"
  using solve_terminates [OF wfGraph_graphS6, of LIFO] wfGraph_graphS6 by blast

lemma distinct_count_list:
  "distinct xs \<Longrightarrow> count_list xs x = (if x \<in> set xs then 1 else 0)"
  by (induction xs) auto

text \<open>
  C5. At every point of a run (after the seeding loop and after each iteration of the
  main loop) the log of pushes holds every edge of the graph exactly once and nothing
  else; the log starts as the enumeration of the initial edges. So when the solver returns,
  every edge that was ever in the graph has been pushed exactly once.
\<close>

theorem pushed_exactly_once:
  assumes "wfGraph g"
  shows "pushLog (stateAfter d g 0) = edgeList g \<and>
         (\<forall>k e. count_list (pushLog (stateAfter d g k)) e =
                  (if e \<in> edges (graph (stateAfter d g k)) then 1 else 0)) \<and>
         (\<exists>s'. solve d (newCFLR g) = Some s' \<and>
            (\<forall>e. count_list (pushLog s') e = (if e \<in> edges (graph s') then 1 else 0)))"
proof (intro conjI allI)
  show "pushLog (stateAfter d g 0) = edgeList g"
    by (simp add: stateAfter_0 seedWorkList_eq pushList_def newCFLR_def)
  have once: "count_list (pushLog s) e = (if e \<in> edges (graph s) then 1 else 0)"
    if "solverInv (edges g) s" for s e
  proof -
    have "distinct (pushLog s)" "set (pushLog s) = edges (graph s)"
      using that by (simp_all add: solverInv_def)
    then show ?thesis
      by (simp add: distinct_count_list)
  qed
  show "count_list (pushLog (stateAfter d g k)) e =
      (if e \<in> edges (graph (stateAfter d g k)) then 1 else 0)" for k e
    using once [OF solverInv_stateAfter [OF assms]] .
  obtain s' where s': "solve d (newCFLR g) = Some s'" "solverInv (edges g) s'"
    using solve_result [OF assms, of d] by blast
  show "\<exists>s'. solve d (newCFLR g) = Some s' \<and>
      (\<forall>e. count_list (pushLog s') e = (if e \<in> edges (graph s') then 1 else 0))"
    using s'(1) once [OF s'(2)] by blast
qed

theorem pushed_exactly_once_witness:
  "wfGraph graphS1 \<and> pushLog (stateAfter FIFO graphS1 0) = edgeList graphS1 \<and>
   (\<exists>s'. solve FIFO (newCFLR graphS1) = Some s' \<and>
      (\<forall>e. count_list (pushLog s') e = (if e \<in> edges (graph s') then 1 else 0)))"
  using pushed_exactly_once [OF wfGraph_graphS1, of FIFO] wfGraph_graphS1 by blast

section \<open>Labels of the derived edges\<close>

lemma derivable_labels:
  "e \<in> derivable G0 \<Longrightarrow> e \<in> G0 \<or> label e \<in> {PT, PTBar, Copy, CopyBar, PV, VP}"
  by (induction rule: derivable.induct) (auto dest: production_cases)

lemma newEdges_labels:
  assumes "l \<in> {PT, PV, VP, Copy}" and "e \<in> set (newEdges g a b l)"
  shows "label e \<in> {PT, PTBar, Copy, CopyBar, PV, VP}"
  using newEdges_cases [OF assms(2)] assms(1) by auto

text \<open>
  C10. The solver returns a graph whose \<open>Addr\<close>, \<open>AddrBar\<close>, \<open>Store\<close> and \<open>Load\<close> edges are
  exactly those of the initial graph. Every edge that is in the graph after some
  iteration, or in the returned graph, and is not an initial edge carries one of the
  labels \<open>PT\<close>, \<open>PTBar\<close>, \<open>Copy\<close>, \<open>CopyBar\<close>, \<open>PV\<close>, \<open>VP\<close>; so does every edge that a call of
  the insertion helper made by the loop body adds.
\<close>

theorem terminal_edges_unchanged:
  assumes "wfGraph g"
  shows "(\<forall>s a b l e. l \<in> {PT, PV, VP, Copy} \<and> e \<in> edges (graph (addEdge d a b l s)) \<and>
            e \<notin> edges (graph s) \<longrightarrow> label e \<in> {PT, PTBar, Copy, CopyBar, PV, VP}) \<and>
         (\<forall>k e. e \<in> edges (graph (stateAfter d g k)) \<and> e \<notin> edges g \<longrightarrow>
            label e \<in> {PT, PTBar, Copy, CopyBar, PV, VP}) \<and>
         (\<exists>s'. solve d (newCFLR g) = Some s' \<and>
            {e \<in> edges (graph s'). label e \<in> {Addr, AddrBar, Store, Load}} =
              {e \<in> edges g. label e \<in> {Addr, AddrBar, Store, Load}} \<and>
            (\<forall>e. e \<in> edges (graph s') \<and> e \<notin> edges g \<longrightarrow>
               label e \<in> {PT, PTBar, Copy, CopyBar, PV, VP}))"
proof (intro conjI allI impI)
  show "label e \<in> {PT, PTBar, Copy, CopyBar, PV, VP}"
    if "l \<in> {PT, PV, VP, Copy} \<and> e \<in> edges (graph (addEdge d a b l s)) \<and> e \<notin> edges (graph s)"
    for s a b l e
    using that newEdges_labels [of l e "graph s" a b] by (auto simp: addEdge_edges)
  have new: "label e \<in> {PT, PTBar, Copy, CopyBar, PV, VP}"
    if "solverInv (edges g) s" "e \<in> edges (graph s)" "e \<notin> edges g" for s e
  proof -
    have "e \<in> derivable (edges g)"
      using that(1,2) by (auto simp: solverInv_def)
    then show ?thesis
      using derivable_labels that(3) by blast
  qed
  show "label e \<in> {PT, PTBar, Copy, CopyBar, PV, VP}"
    if "e \<in> edges (graph (stateAfter d g k)) \<and> e \<notin> edges g" for k e
    using new [OF solverInv_stateAfter [OF assms]] that by blast
  obtain s' where s': "solve d (newCFLR g) = Some s'" "solverInv (edges g) s'"
    using solve_result [OF assms, of d] by blast
  have sub: "edges g \<subseteq> edges (graph s')"
    using s'(2) by (simp add: solverInv_def)
  have old: "e \<in> edges g"
    if "e \<in> edges (graph s')" "label e \<in> {Addr, AddrBar, Store, Load}" for e
  proof (rule ccontr)
    assume "e \<notin> edges g"
    then have "label e \<in> {PT, PTBar, Copy, CopyBar, PV, VP}"
      using new [OF s'(2) that(1)] by blast
    then show False using that(2) by auto
  qed
  have "{e \<in> edges (graph s'). label e \<in> {Addr, AddrBar, Store, Load}} =
      {e \<in> edges g. label e \<in> {Addr, AddrBar, Store, Load}}"
    using sub old by blast
  then show "\<exists>s'. solve d (newCFLR g) = Some s' \<and>
      {e \<in> edges (graph s'). label e \<in> {Addr, AddrBar, Store, Load}} =
        {e \<in> edges g. label e \<in> {Addr, AddrBar, Store, Load}} \<and>
      (\<forall>e. e \<in> edges (graph s') \<and> e \<notin> edges g \<longrightarrow>
         label e \<in> {PT, PTBar, Copy, CopyBar, PV, VP})"
    using s'(1) new [OF s'(2)] by blast
qed

theorem terminal_edges_unchanged_witness:
  "wfGraph graphS6 \<and>
   (\<exists>s'. solve FIFO (newCFLR graphS6) = Some s' \<and>
      {e \<in> edges (graph s'). label e \<in> {Addr, AddrBar, Store, Load}} =
        {e \<in> edges graphS6. label e \<in> {Addr, AddrBar, Store, Load}})"
  using terminal_edges_unchanged [OF wfGraph_graphS6, of FIFO] wfGraph_graphS6 by blast

section \<open>Independence of the order and of the \<open>Addr\<close> edges\<close>

text \<open>The edges of S6 inserted in another order: the same edge set, enumerated
  differently by the seeding loop.\<close>

definition graphS6r :: CFLRGraph where
  "graphS6r = buildGraph [CFLREdge 0 2 Load, CFLREdge 0 0 Store, CFLREdge 0 1 AddrBar]"

text \<open>S6 with the \<open>Addr\<close> edge that is the inverse of its \<open>AddrBar\<close> edge.\<close>

definition graphS6a :: CFLRGraph where
  "graphS6a =
     buildGraph [CFLREdge 1 0 Addr, CFLREdge 0 1 AddrBar, CFLREdge 0 0 Store, CFLREdge 0 2 Load]"

lemmas wf_eval = buildGraph_def emptyGraph_def graphAddEdge_def insert2_def wfGraph_def
  wfMap_def edgeList_def predList_def hasEdge_def hasPred_def lookup2_def

lemma wfGraph_graphS6r: "wfGraph graphS6r"
  by (simp add: graphS6r_def wf_eval)

lemma wfGraph_graphS6a: "wfGraph graphS6a"
  by (simp add: graphS6a_def wf_eval)

text \<open>
  C6. Two runs of the solver on graphs with the same edge set return graphs with the same
  edge set, whatever the work-list disciplines of the two runs (FIFO or LIFO) and whatever
  the orders in which the two graphs enumerate their edges.
\<close>

theorem solve_order_independent:
  assumes "wfGraph g1" and "wfGraph g2" and "edges g1 = edges g2"
  shows "\<exists>s1 s2. solve d1 (newCFLR g1) = Some s1 \<and> solve d2 (newCFLR g2) = Some s2 \<and>
           edges (graph s1) = edges (graph s2)"
proof -
  obtain s1 where s1: "solve d1 (newCFLR g1) = Some s1"
    "edges (graph s1) = derivable (edges g1)"
    using solve_result [OF assms(1), of d1] by blast
  obtain s2 where s2: "solve d2 (newCFLR g2) = Some s2"
    "edges (graph s2) = derivable (edges g2)"
    using solve_result [OF assms(2), of d2] by blast
  show ?thesis
    using s1 s2 assms(3) by simp
qed

theorem solve_order_independent_witness:
  "wfGraph graphS6 \<and> wfGraph graphS6r \<and> edges graphS6 = edges graphS6r \<and>
   edgeList graphS6 \<noteq> edgeList graphS6r \<and>
   (\<exists>s1 s2. solve FIFO (newCFLR graphS6) = Some s1 \<and> solve LIFO (newCFLR graphS6r) = Some s2 \<and>
      edges (graph s1) = edges (graph s2))"
proof -
  have e: "edges graphS6 = edges graphS6r"
    by (auto simp: graphS6_def graphS6r_def edges_buildGraph)
  have n: "edgeList graphS6 \<noteq> edgeList graphS6r"
    by (simp add: graphS6_def graphS6r_def buildGraph_def emptyGraph_def graphAddEdge_def
        insert2_def edgeList_def)
  show ?thesis
    using solve_order_independent [OF wfGraph_graphS6 wfGraph_graphS6r e, of FIFO LIFO]
      wfGraph_graphS6 wfGraph_graphS6r e n by blast
qed

lemma derivable_ignores_Addr:
  assumes "{e \<in> G. label e \<noteq> Addr} = {e \<in> G'. label e \<noteq> Addr}"
  shows "e \<in> derivable G \<Longrightarrow> label e \<noteq> Addr \<Longrightarrow> e \<in> derivable G'"
proof (induction rule: derivable.induct)
  case (d_init e)
  then have "e \<in> {e \<in> G. label e \<noteq> Addr}" by simp
  then have "e \<in> G'" unfolding assms by simp
  then show ?case by (rule derivable.d_init)
next
  case (d_unary u v)
  then show ?case by (auto intro: derivable.d_unary)
next
  case (d_binary u v l1 w l2 l3)
  have "l1 \<noteq> Addr" "l2 \<noteq> Addr"
    using production_cases [OF d_binary.hyps(3)] by auto
  then show ?case
    using d_binary.IH d_binary.hyps(3) by (auto intro: derivable.d_binary)
next
  case (d_symPT u v)
  have "CFLREdge u v PT \<notin> {e \<in> G. label e \<noteq> Addr}"
    using d_symPT.hyps(2) by simp
  then have "CFLREdge u v PT \<notin> G'"
    unfolding assms by simp
  then show ?case
    using d_symPT.IH by (auto intro: derivable.d_symPT)
next
  case (d_symCopy u v)
  have "CFLREdge u v Copy \<notin> {e \<in> G. label e \<noteq> Addr}"
    using d_symCopy.hyps(2) by simp
  then have "CFLREdge u v Copy \<notin> G'"
    unfolding assms by simp
  then show ?case
    using d_symCopy.IH by (auto intro: derivable.d_symCopy)
qed

text \<open>
  C9. If two initial graphs have the same edges apart from their \<open>Addr\<close> edges, the graphs
  that the solver returns for them have the same edges apart from their \<open>Addr\<close> edges; in
  particular they have the same \<open>PT\<close>, \<open>PTBar\<close>, \<open>Copy\<close>, \<open>CopyBar\<close>, \<open>PV\<close> and \<open>VP\<close> edges.
\<close>

theorem addr_edges_ignored:
  assumes "wfGraph g1" and "wfGraph g2"
    and "{e \<in> edges g1. label e \<noteq> Addr} = {e \<in> edges g2. label e \<noteq> Addr}"
  shows "\<exists>s1 s2. solve d1 (newCFLR g1) = Some s1 \<and> solve d2 (newCFLR g2) = Some s2 \<and>
           {e \<in> edges (graph s1). label e \<noteq> Addr} = {e \<in> edges (graph s2). label e \<noteq> Addr} \<and>
           {e \<in> edges (graph s1). label e \<in> {PT, PTBar, Copy, CopyBar, PV, VP}} =
             {e \<in> edges (graph s2). label e \<in> {PT, PTBar, Copy, CopyBar, PV, VP}}"
proof -
  obtain s1 where s1: "solve d1 (newCFLR g1) = Some s1"
    "edges (graph s1) = derivable (edges g1)"
    using solve_result [OF assms(1), of d1] by blast
  obtain s2 where s2: "solve d2 (newCFLR g2) = Some s2"
    "edges (graph s2) = derivable (edges g2)"
    using solve_result [OF assms(2), of d2] by blast
  have same: "(e \<in> derivable (edges g1)) = (e \<in> derivable (edges g2))" if "label e \<noteq> Addr" for e
    using derivable_ignores_Addr [OF assms(3)] derivable_ignores_Addr [OF assms(3) [symmetric]]
      that by blast
  have 1: "{e \<in> edges (graph s1). label e \<noteq> Addr} = {e \<in> edges (graph s2). label e \<noteq> Addr}"
    unfolding s1(2) s2(2) using same by blast
  have 2: "{e \<in> edges (graph s1). label e \<in> {PT, PTBar, Copy, CopyBar, PV, VP}} =
      {e \<in> edges (graph s2). label e \<in> {PT, PTBar, Copy, CopyBar, PV, VP}}"
  proof (rule set_eqI)
    fix e
    show "(e \<in> {e \<in> edges (graph s1). label e \<in> {PT, PTBar, Copy, CopyBar, PV, VP}}) =
        (e \<in> {e \<in> edges (graph s2). label e \<in> {PT, PTBar, Copy, CopyBar, PV, VP}})"
    proof (cases "label e = Addr")
      case True
      then show ?thesis by simp
    next
      case False
      then show ?thesis
        unfolding s1(2) s2(2) using same by simp
    qed
  qed
  show ?thesis
    using s1(1) s2(1) 1 2 by blast
qed

theorem addr_edges_ignored_witness:
  "wfGraph graphS6 \<and> wfGraph graphS6a \<and>
   {e \<in> edges graphS6. label e \<noteq> Addr} = {e \<in> edges graphS6a. label e \<noteq> Addr} \<and>
   CFLREdge 1 0 Addr \<in> edges graphS6a \<and> CFLREdge 1 0 Addr \<notin> edges graphS6 \<and>
   (\<exists>s1 s2. solve FIFO (newCFLR graphS6) = Some s1 \<and> solve FIFO (newCFLR graphS6a) = Some s2 \<and>
      {e \<in> edges (graph s1). label e \<in> {PT, PTBar, Copy, CopyBar, PV, VP}} =
        {e \<in> edges (graph s2). label e \<in> {PT, PTBar, Copy, CopyBar, PV, VP}})"
proof -
  have h: "{e \<in> edges graphS6. label e \<noteq> Addr} = {e \<in> edges graphS6a. label e \<noteq> Addr}"
    by (auto simp: graphS6_def graphS6a_def edges_buildGraph)
  have n: "CFLREdge 1 0 Addr \<in> edges graphS6a" "CFLREdge 1 0 Addr \<notin> edges graphS6"
    by (simp_all add: graphS6_def graphS6a_def edges_buildGraph)
  show ?thesis
    using addr_edges_ignored [OF wfGraph_graphS6 wfGraph_graphS6a h, of FIFO FIFO]
      wfGraph_graphS6 wfGraph_graphS6a h n by blast
qed

section \<open>The least closed edge set\<close>

text \<open>
  The closure conditions in the words of the specification (sections 4.3 and 4.4):
  closure under the unary and the four binary productions, closure under the symmetry
  rule of the solver, and the least set with these properties that holds the initial edges.
\<close>

definition grammarClosed :: "CFLREdge set \<Rightarrow> bool" where
  "grammarClosed S =
     ((\<forall>u v. CFLREdge u v AddrBar \<in> S \<longrightarrow> CFLREdge u v PT \<in> S) \<and>
      (\<forall>u v w. CFLREdge u v CopyBar \<in> S \<and> CFLREdge v w PT \<in> S \<longrightarrow> CFLREdge u w PT \<in> S) \<and>
      (\<forall>u v w. CFLREdge u v Store \<in> S \<and> CFLREdge v w PT \<in> S \<longrightarrow> CFLREdge u w PV \<in> S) \<and>
      (\<forall>u v w. CFLREdge u v PTBar \<in> S \<and> CFLREdge v w Load \<in> S \<longrightarrow> CFLREdge u w VP \<in> S) \<and>
      (\<forall>u v w. CFLREdge u v PV \<in> S \<and> CFLREdge v w VP \<in> S \<longrightarrow> CFLREdge u w Copy \<in> S))"

definition symClosed :: "CFLREdge set \<Rightarrow> bool" where
  "symClosed S =
     ((\<forall>u v. CFLREdge u v PT \<in> S \<longrightarrow> CFLREdge v u PTBar \<in> S) \<and>
      (\<forall>u v. CFLREdge u v Copy \<in> S \<longrightarrow> CFLREdge v u CopyBar \<in> S))"

definition leastClosed :: "CFLREdge set \<Rightarrow> CFLREdge set \<Rightarrow> bool" where
  "leastClosed G0 S =
     (G0 \<subseteq> S \<and> grammarClosed S \<and> symClosed S \<and>
      (\<forall>S'. G0 \<subseteq> S' \<and> grammarClosed S' \<and> symClosed S' \<longrightarrow> S \<subseteq> S'))"

lemma closedOn_grammarClosed:
  assumes "closedOn S S"
  shows "grammarClosed S"
proof -
  have u: "CFLREdge u v AddrBar \<in> S \<Longrightarrow> CFLREdge u v PT \<in> S" for u v
    using assms unfolding closedOn_def by blast
  have b: "CFLREdge u v l1 \<in> S \<Longrightarrow> CFLREdge v w l2 \<in> S \<Longrightarrow> production l1 l2 = Some l3 \<Longrightarrow>
      CFLREdge u w l3 \<in> S" for u v w l1 l2 l3
    using assms unfolding closedOn_def by blast
  show ?thesis
    unfolding grammarClosed_def
  proof (intro conjI allI impI)
    fix u v assume "CFLREdge u v AddrBar \<in> S"
    then show "CFLREdge u v PT \<in> S" by (rule u)
  next
    fix u v w assume "CFLREdge u v CopyBar \<in> S \<and> CFLREdge v w PT \<in> S"
    then show "CFLREdge u w PT \<in> S"
      using b [of u v CopyBar w PT PT] by (simp add: production_def)
  next
    fix u v w assume "CFLREdge u v Store \<in> S \<and> CFLREdge v w PT \<in> S"
    then show "CFLREdge u w PV \<in> S"
      using b [of u v Store w PT PV] by (simp add: production_def)
  next
    fix u v w assume "CFLREdge u v PTBar \<in> S \<and> CFLREdge v w Load \<in> S"
    then show "CFLREdge u w VP \<in> S"
      using b [of u v PTBar w Load VP] by (simp add: production_def)
  next
    fix u v w assume "CFLREdge u v PV \<in> S \<and> CFLREdge v w VP \<in> S"
    then show "CFLREdge u w Copy \<in> S"
      using b [of u v PV w VP Copy] by (simp add: production_def)
  qed
qed

lemma derivable_least:
  assumes "G0 \<subseteq> S" and "grammarClosed S" and "symNew G0 S"
  shows "derivable G0 \<subseteq> S"
proof
  fix e assume "e \<in> derivable G0"
  then show "e \<in> S"
  proof (induction rule: derivable.induct)
    case (d_init e)
    then show ?case using assms(1) by blast
  next
    case (d_unary u v)
    then show ?case using assms(2) unfolding grammarClosed_def by blast
  next
    case (d_binary u v l1 w l2 l3)
    from production_cases [OF d_binary.hyps(3)] show ?case
      using d_binary.IH assms(2) unfolding grammarClosed_def by blast
  next
    case (d_symPT u v)
    then show ?case using assms(3) unfolding symNew_def by blast
  next
    case (d_symCopy u v)
    then show ?case using assms(3) unfolding symNew_def by blast
  qed
qed

lemma symClosed_symNew: "symClosed S \<Longrightarrow> symNew G0 S"
  unfolding symNew_def symClosed_def by blast

lemma symNew_symClosed:
  assumes "symNew G0 E" and "symClosed G0" and "G0 \<subseteq> E"
  shows "symClosed E"
  using assms unfolding symNew_def symClosed_def by blast

text \<open>The graph with the single edge \<open>Copy(0,1)\<close>, which has no inverse.\<close>

definition graphCopy :: CFLRGraph where
  "graphCopy = buildGraph [CFLREdge 0 1 Copy]"

lemma solve_graphCopy:
  "solve FIFO (newCFLR graphCopy) = Some
     \<lparr>graph = \<lparr>succMap = [(0, [(Copy, [1])])], predMap = [(1, [(Copy, [0])])]\<rparr>,
      workList = [], pushLog = [CFLREdge 0 1 Copy]\<rparr>"
  by (simp add: graphCopy_def buildGraph_def emptyGraph_def eval_defs)

text \<open>
  C1 fails as stated: on the well-formed graph whose only edge is
  \<open>Copy(0,1)\<close> the solver returns a graph that lacks \<open>CopyBar(1,0)\<close>, so its edge set is not
  closed under the symmetry rule and is not the least closed set.
\<close>

theorem solve_least_closed_counterexample:
  "wfGraph graphCopy \<and> edges graphCopy = {CFLREdge 0 1 Copy} \<and>
   (\<exists>s'. solve FIFO (newCFLR graphCopy) = Some s' \<and>
      CFLREdge 0 1 Copy \<in> edges (graph s') \<and> CFLREdge 1 0 CopyBar \<notin> edges (graph s') \<and>
      \<not> leastClosed (edges graphCopy) (edges (graph s')))"
proof (intro conjI)
  show "wfGraph graphCopy"
    by (simp add: graphCopy_def wf_eval)
  show "edges graphCopy = {CFLREdge 0 1 Copy}"
    by (simp add: graphCopy_def edges_buildGraph)
  let ?g = "\<lparr>succMap = [(0::nat, [(Copy, [1::nat])])], predMap = [(1::nat, [(Copy, [0::nat])])]\<rparr>"
  have a: "CFLREdge 0 1 Copy \<in> edges ?g" and b: "CFLREdge 1 0 CopyBar \<notin> edges ?g"
    by (simp_all add: edges_iff hasEdge_def lookup2_def)
  then have "\<not> symClosed (edges ?g)"
    unfolding symClosed_def by blast
  then have "\<not> leastClosed (edges graphCopy) (edges ?g)"
    by (simp add: leastClosed_def)
  then show "\<exists>s'. solve FIFO (newCFLR graphCopy) = Some s' \<and>
      CFLREdge 0 1 Copy \<in> edges (graph s') \<and> CFLREdge 1 0 CopyBar \<notin> edges (graph s') \<and>
      \<not> leastClosed (edges graphCopy) (edges (graph s'))"
    unfolding solve_graphCopy using a b by simp
qed

text \<open>
  C1, amended. On a well-formed initial graph the solver returns a graph whose edge set
  is the least set that holds the initial edges, is closed under the grammar, and holds the
  inverse of every \<open>PT\<close> and \<open>Copy\<close> edge that is not an initial edge. If moreover every
  \<open>PT\<close> and every \<open>Copy\<close> edge of the initial graph has its inverse in the initial graph,
  this is the least set that holds the initial edges and is closed under the grammar and
  under the symmetry rule.
\<close>

theorem solve_least_closed:
  assumes "wfGraph g"
  shows "\<exists>s'. solve d (newCFLR g) = Some s' \<and> edges g \<subseteq> edges (graph s') \<and>
           grammarClosed (edges (graph s')) \<and> symNew (edges g) (edges (graph s')) \<and>
           (\<forall>S'. edges g \<subseteq> S' \<and> grammarClosed S' \<and> symNew (edges g) S' \<longrightarrow>
              edges (graph s') \<subseteq> S') \<and>
           (symClosed (edges g) \<longrightarrow> leastClosed (edges g) (edges (graph s')))"
proof -
  obtain s' where s': "solve d (newCFLR g) = Some s'" "workList s' = []"
    "solverInv (edges g) s'" "edges (graph s') = derivable (edges g)"
    using solve_result [OF assms, of d] by blast
  have sub: "edges g \<subseteq> edges (graph s')"
    and cl: "closedOn (edges (graph s')) (edges (graph s'))"
    and sn: "symNew (edges g) (edges (graph s'))"
    using s'(2,3) by (simp_all add: solverInv_def)
  have gc: "grammarClosed (edges (graph s'))"
    using cl by (rule closedOn_grammarClosed)
  have least: "edges (graph s') \<subseteq> S'"
    if "edges g \<subseteq> S' \<and> grammarClosed S' \<and> symNew (edges g) S'" for S'
    unfolding s'(4) using that derivable_least by blast
  have "leastClosed (edges g) (edges (graph s'))" if sym: "symClosed (edges g)"
  proof -
    have "symClosed (edges (graph s'))"
      using sn sym sub by (rule symNew_symClosed)
    moreover have "edges (graph s') \<subseteq> S'"
      if "edges g \<subseteq> S' \<and> grammarClosed S' \<and> symClosed S'" for S'
      using least [of S'] that symClosed_symNew by blast
    ultimately show ?thesis
      unfolding leastClosed_def using sub gc by blast
  qed
  then show ?thesis
    using s'(1) sub gc sn least by blast
qed

theorem solve_least_closed_witness:
  "wfGraph graphS1 \<and> symClosed (edges graphS1) \<and>
   (\<exists>s'. solve LIFO (newCFLR graphS1) = Some s' \<and> grammarClosed (edges (graph s')) \<and>
      leastClosed (edges graphS1) (edges (graph s')))"
proof -
  have e: "edges graphS1 = {CFLREdge 0 1 AddrBar, CFLREdge 2 0 Copy, CFLREdge 0 2 CopyBar}"
    by (simp add: graphS1_def edges_buildGraph)
  have sym: "symClosed (edges graphS1)"
    by (simp add: e symClosed_def)
  show ?thesis
    using solve_least_closed [OF wfGraph_graphS1, of LIFO] wfGraph_graphS1 sym by blast
qed

end
